theory Spec2Isabelle
  imports Complex_Main
begin

section \<open>Python values, exceptions and the object store\<close>

text \<open>
  The module \<open>linsys.py\<close> defines the class \<open>LinearSystem\<close>: a list of planes of one
  dimension, row operations on it, the scan for the first nonzero coefficient of each row,
  and the two elimination routines \<open>compute_triangular_form\<close> and \<open>compute_rref_form\<close>.

  Exceptions are values of the type \<open>error\<close>; a call that may raise returns \<open>error + 'a\<close>
  with \<open>Inl\<close> for the exception. \<open>Exception m\<close> is Python's \<open>Exception(m)\<close>,
  \<open>NoNonZeroElements m\<close> the exception class imported from the module \<open>nonzero\<close>, and
  \<open>TypeError\<close> stands for what Python raises when an object is not of the kind an
  operation needs (an attribute or an item read on the wrong object).
\<close>

datatype error =
    IndexError
  | TypeError
  | ZeroDivisionError
  | Exception string
  | NoNonZeroElements string

definition err_bind :: "error + 'a \<Rightarrow> ('a \<Rightarrow> error + 'b) \<Rightarrow> error + 'b" where
  "err_bind m f = (case m of Inl e \<Rightarrow> Inl e | Inr x \<Rightarrow> f x)"

text \<open>
  Modelled from the spec: the class \<open>Plane\<close> of the module \<open>plane\<close> is not part of the
  sources. The spec gives it coefficients "exposed as an indexable sequence of length
  dimension plus a constant term", scalar multiplication, addition and subtraction with a
  plane of equal dimension. The sum and the difference of two planes are taken coefficient
  by coefficient (the spec speaks of equal dimensions only).

  Coefficients are exact rationals here. The program computes with Python numbers, whose
  products, sums and quotients are rounded, so the model says what the control flow does
  with the values it is given and nothing about rounding error: a property that holds or
  fails by the size of that error is outside it.
\<close>

record plane =
  normal_vector :: "rat list"
  constant_term :: rat

definition plane_dimension :: "plane \<Rightarrow> nat" where
  "plane_dimension p = length (normal_vector p)"

definition plane_getitem :: "plane \<Rightarrow> nat \<Rightarrow> error + rat" where
  "plane_getitem p i =
     (if i < length (normal_vector p) then Inr (normal_vector p ! i) else Inl IndexError)"

definition plane_mul :: "plane \<Rightarrow> rat \<Rightarrow> plane" where
  "plane_mul p c =
     \<lparr>normal_vector = map (\<lambda>x. x * c) (normal_vector p),
      constant_term = constant_term p * c\<rparr>"

definition plane_add :: "plane \<Rightarrow> plane \<Rightarrow> plane" where
  "plane_add p q =
     \<lparr>normal_vector = map2 (+) (normal_vector p) (normal_vector q),
      constant_term = constant_term p + constant_term q\<rparr>"

definition plane_sub :: "plane \<Rightarrow> plane \<Rightarrow> plane" where
  "plane_sub p q =
     \<lparr>normal_vector = map2 (-) (normal_vector p) (normal_vector q),
      constant_term = constant_term p - constant_term q\<rparr>"

text \<open>
  Modelled from the spec: \<open>Plane.first_nonzero_index\<close>, "a query for its first nonzero
  coefficient index" with "a distinguishable no-nonzero-elements signal". The text of the
  signal, \<open>Plane.NO_NONZERO_ELTS_FOUND_MSG\<close>, is a constant of the absent module and is
  the parameter \<open>msg\<close> throughout.
\<close>

fun first_nonzero_from :: "string \<Rightarrow> int \<Rightarrow> rat list \<Rightarrow> error + int" where
  "first_nonzero_from msg k [] = Inl (NoNonZeroElements msg)"
| "first_nonzero_from msg k (x # xs) =
     (if x \<noteq> 0 then Inr k else first_nonzero_from msg (k + 1) xs)"

definition first_nonzero_index :: "string \<Rightarrow> rat list \<Rightarrow> error + int" where
  "first_nonzero_index msg xs = first_nonzero_from msg 0 xs"

text \<open>
  Python objects live in a store. An address is an index into the store; a new object is
  appended, so its address is the length of the store before. Two kinds of object matter
  here: planes, and lists of references to planes (the attribute \<open>planes\<close> of a system).
\<close>

datatype obj = PlaneObj plane | ListObj "nat list"

type_synonym heap = "obj list"

definition alloc :: "heap \<Rightarrow> obj \<Rightarrow> heap \<times> nat" where
  "alloc h ob = (h @ [ob], length h)"

definition lookup_plane :: "heap \<Rightarrow> nat \<Rightarrow> error + plane" where
  "lookup_plane h a =
     (if a < length h then (case h ! a of PlaneObj p \<Rightarrow> Inr p | ListObj xs \<Rightarrow> Inl TypeError)
      else Inl TypeError)"

definition lookup_list :: "heap \<Rightarrow> nat \<Rightarrow> error + nat list" where
  "lookup_list h l =
     (if l < length h then (case h ! l of ListObj xs \<Rightarrow> Inr xs | PlaneObj p \<Rightarrow> Inl TypeError)
      else Inl TypeError)"

text \<open>
  Reading and writing \<open>xs[i]\<close> for the list at address \<open>l\<close>. The loops of the module
  index with values of \<open>range\<close>, which are never negative, so their index is a \<open>nat\<close>;
  out of range raises \<open>IndexError\<close>.
\<close>

definition list_getitem :: "heap \<Rightarrow> nat \<Rightarrow> nat \<Rightarrow> error + nat" where
  "list_getitem h l i =
     err_bind (lookup_list h l) (\<lambda>xs. if i < length xs then Inr (xs ! i) else Inl IndexError)"

definition list_setitem :: "heap \<Rightarrow> nat \<Rightarrow> nat \<Rightarrow> nat \<Rightarrow> error + heap" where
  "list_setitem h l i a =
     err_bind (lookup_list h l)
       (\<lambda>xs. if i < length xs then Inr (h[l := ListObj (xs[i := a])]) else Inl IndexError)"

text \<open>
  An index that comes from a caller is any Python integer: a negative one counts from the
  end of the list.
\<close>

definition py_index :: "nat \<Rightarrow> int \<Rightarrow> error + nat" where
  "py_index n i =
     (let j = (if i < 0 then int n + i else i)
      in if 0 \<le> j \<and> j < int n then Inr (nat j) else Inl IndexError)"

section \<open>The class LinearSystem\<close>

record linear_system =
  planes :: nat
  dimension :: nat

definition SAME_DIM_MSG :: string where
  "SAME_DIM_MSG = ''All planes in the system should live in the same dimension''"

text \<open>
  \<open>__init__\<close>: \<open>planes[0].dimension\<close> is read first, then every plane is compared with
  it. A failed \<open>assert\<close> is caught and raised again as \<open>Exception(SAME_DIM_MSG)\<close>; every
  other exception leaves the constructor as it is. The system keeps the reference to the
  caller's list.
\<close>

fun check_dimensions :: "heap \<Rightarrow> nat \<Rightarrow> nat list \<Rightarrow> error + unit" where
  "check_dimensions h d [] = Inr ()"
| "check_dimensions h d (a # as) =
     err_bind (lookup_plane h a)
       (\<lambda>p. if plane_dimension p = d then check_dimensions h d as
            else Inl (Exception SAME_DIM_MSG))"

definition init :: "heap \<Rightarrow> nat \<Rightarrow> error + linear_system" where
  "init h l =
     err_bind (lookup_list h l)
       (\<lambda>xs. case xs of
            [] \<Rightarrow> Inl IndexError
          | a # as \<Rightarrow>
              err_bind (lookup_plane h a)
                (\<lambda>p0. let d = plane_dimension p0
                      in err_bind (check_dimensions h d xs)
                           (\<lambda>u. Inr \<lparr>planes = l, dimension = d\<rparr>)))"

text \<open>\<open>__len__\<close> and \<open>__getitem__\<close>.\<close>

definition len :: "heap \<Rightarrow> linear_system \<Rightarrow> error + nat" where
  "len h self = err_bind (lookup_list h (planes self)) (\<lambda>xs. Inr (length xs))"

definition getitem :: "heap \<Rightarrow> linear_system \<Rightarrow> int \<Rightarrow> error + nat" where
  "getitem h self index =
     err_bind (lookup_list h (planes self))
       (\<lambda>xs. err_bind (py_index (length xs) index) (\<lambda>k. Inr (xs ! k)))"

text \<open>
  \<open>__setitem__\<close> returns nothing; the model returns the exception, if one is raised, and
  the store as the call leaves it. The dimension is asserted before the list is written.
\<close>

definition setitem :: "heap \<Rightarrow> linear_system \<Rightarrow> int \<Rightarrow> nat \<Rightarrow> error option \<times> heap" where
  "setitem h self index a =
     (case lookup_plane h a of
        Inl e \<Rightarrow> (Some e, h)
      | Inr p \<Rightarrow>
          if plane_dimension p \<noteq> dimension self then (Some (Exception SAME_DIM_MSG), h)
          else (case lookup_list h (planes self) of
                  Inl e \<Rightarrow> (Some e, h)
                | Inr xs \<Rightarrow>
                    (case py_index (length xs) index of
                       Inl e \<Rightarrow> (Some e, h)
                     | Inr k \<Rightarrow> (None, h[planes self := ListObj (xs[k := a])]))))"

text \<open>\<open>swap_rows\<close>: three statements, two of them writes to the list.\<close>

definition swap_rows :: "heap \<Rightarrow> nat \<Rightarrow> nat \<Rightarrow> nat \<Rightarrow> error + heap" where
  "swap_rows h l index_1 index_2 =
     err_bind (list_getitem h l index_1)
       (\<lambda>row_1. err_bind (list_getitem h l index_2)
          (\<lambda>row_2. err_bind (list_setitem h l index_1 row_2)
             (\<lambda>h1. list_setitem h1 l index_2 row_1)))"

text \<open>
  \<open>get_first_nonzero_indexes\<close>. The query of the plane is the parameter \<open>fnz\<close>, so that
  the scan is defined for any behaviour of the collaborator. Only an exception of the
  class \<open>NoNonZeroElements\<close> is caught, and only one whose text is \<open>msg\<close> is dropped:
  the entry of that row stays \<open>-1\<close>.
\<close>

fun scan_planes ::
  "string \<Rightarrow> (rat list \<Rightarrow> error + int) \<Rightarrow> heap \<Rightarrow> (nat \<times> nat) list \<Rightarrow> int list
     \<Rightarrow> error + int list" where
  "scan_planes msg fnz h [] indices = Inr indices"
| "scan_planes msg fnz h ((i, a) # rest) indices =
     err_bind (lookup_plane h a)
       (\<lambda>p. case fnz (normal_vector p) of
              Inr k \<Rightarrow> scan_planes msg fnz h rest (indices[i := k])
            | Inl (NoNonZeroElements m) \<Rightarrow>
                if m = msg then scan_planes msg fnz h rest indices
                else Inl (NoNonZeroElements m)
            | Inl e \<Rightarrow> Inl e)"

definition get_first_nonzero_indexes ::
  "string \<Rightarrow> (rat list \<Rightarrow> error + int) \<Rightarrow> heap \<Rightarrow> linear_system \<Rightarrow> error + int list" where
  "get_first_nonzero_indexes msg fnz h self =
     err_bind (lookup_list h (planes self))
       (\<lambda>xs. let num_equations = length xs;
                 indices = replicate num_equations (- 1)
             in scan_planes msg fnz h (zip [0..<length xs] xs) indices)"

section \<open>Deep copies\<close>

text \<open>
  \<open>copy.deepcopy\<close> of a system builds a new system object whose \<open>planes\<close> is a new list
  of new planes; the integer \<open>dimension\<close> is shared. The copy keeps a memo from the
  addresses it has copied to their copies, so that a plane that occurs twice in the list is
  copied once. The copies of the planes are allocated first, the list after them.
\<close>

fun deepcopy_refs ::
  "heap \<Rightarrow> (nat \<times> nat) list \<Rightarrow> nat list \<Rightarrow> error + heap \<times> (nat \<times> nat) list \<times> nat list" where
  "deepcopy_refs h memo [] = Inr (h, memo, [])"
| "deepcopy_refs h memo (a # as) =
     (case map_of memo a of
        Some a' \<Rightarrow>
          err_bind (deepcopy_refs h memo as) (\<lambda>(h', memo', bs). Inr (h', memo', a' # bs))
      | None \<Rightarrow>
          err_bind (lookup_plane h a)
            (\<lambda>p. let (h1, a') = alloc h (PlaneObj p)
                 in err_bind (deepcopy_refs h1 ((a, a') # memo) as)
                      (\<lambda>(h', memo', bs). Inr (h', memo', a' # bs))))"

definition deepcopy :: "heap \<Rightarrow> linear_system \<Rightarrow> error + heap \<times> linear_system" where
  "deepcopy h self =
     err_bind (lookup_list h (planes self))
       (\<lambda>xs. err_bind (deepcopy_refs h [] xs)
          (\<lambda>(h1, memo, ys). let (h2, l) = alloc h1 (ListObj ys)
                            in Inr (h2, \<lparr>planes = l, dimension = dimension self\<rparr>)))"

section \<open>Triangular form\<close>

text \<open>
  \<open>planes[row]\<close> and \<open>planes[row][dim]\<close> for the list at address \<open>l\<close>. The cursor \<open>dim\<close>
  of the source is written \<open>d\<close>. Python's \<open>/\<close> raises on a zero divisor; the quotient
  is the exact one, not a rounded one.
\<close>

definition row_plane :: "heap \<Rightarrow> nat \<Rightarrow> nat \<Rightarrow> error + plane" where
  "row_plane h l row = err_bind (list_getitem h l row) (lookup_plane h)"

definition coeff_at :: "heap \<Rightarrow> nat \<Rightarrow> nat \<Rightarrow> nat \<Rightarrow> error + rat" where
  "coeff_at h l row d = err_bind (row_plane h l row) (\<lambda>p. plane_getitem p d)"

definition py_div :: "rat \<Rightarrow> rat \<Rightarrow> error + rat" where
  "py_div a b = (if b = 0 then Inl ZeroDivisionError else Inr (a / b))"

text \<open>
  The search for a row to swap in, \<open>for next_row in range(row + 1, rows - 1)\<close>: every row
  of the range whose coefficient at the cursor is greater than zero is swapped with
  \<open>row\<close>, one after the other; the loop has no \<open>break\<close>.
\<close>

fun swap_scan ::
  "heap \<Rightarrow> nat \<Rightarrow> nat \<Rightarrow> nat \<Rightarrow> nat list \<Rightarrow> bool \<Rightarrow> error + heap \<times> bool" where
  "swap_scan h l row d [] swap = Inr (h, swap)"
| "swap_scan h l row d (next_row # rest) swap =
     err_bind (coeff_at h l next_row d)
       (\<lambda>c. if c > 0
            then err_bind (swap_rows h l row next_row) (\<lambda>h'. swap_scan h' l row d rest True)
            else swap_scan h l row d rest swap)"

text \<open>
  The clearing loop, \<open>for next_row in range(row + 1, rows)\<close>. \<open>coefficient\<close> was read
  before the loop. The plane that is stored in the list is a new object of the store; the
  product \<open>reduction_plane\<close> is dropped after the sum and stays a value.
\<close>

fun clear_below ::
  "heap \<Rightarrow> nat \<Rightarrow> nat \<Rightarrow> nat \<Rightarrow> rat \<Rightarrow> nat list \<Rightarrow> error + heap" where
  "clear_below h l row d coefficient [] = Inr h"
| "clear_below h l row d coefficient (next_row # rest) =
     err_bind (coeff_at h l next_row d)
       (\<lambda>coefficient_remove.
          if coefficient_remove \<noteq> 0
          then err_bind (py_div coefficient_remove coefficient)
            (\<lambda>q. let factor = q * (- 1)
                 in err_bind (row_plane h l row)
                      (\<lambda>p_row. let reduction_plane = plane_mul p_row factor
                         in err_bind (row_plane h l next_row)
                              (\<lambda>p_next.
                                 let (h1, a) = alloc h (PlaneObj (plane_add p_next reduction_plane))
                                 in err_bind (list_setitem h1 l next_row a)
                                      (\<lambda>h2. clear_below h2 l row d coefficient rest))))
          else clear_below h l row d coefficient rest)"

lemma err_bind_cong [fundef_cong]:
  "m = m' \<Longrightarrow> (\<And>x. m' = Inr x \<Longrightarrow> f x = f' x) \<Longrightarrow> err_bind m f = err_bind m' f'"
  by (cases m') (simp_all add: err_bind_def)

text \<open>
  Facts about the store that the termination of the cursor loop needs: a write to a list
  changes no plane, and after \<open>swap_rows(i, j)\<close> the row \<open>i\<close> is the former row \<open>j\<close>.
\<close>

lemma list_setitem_plane:
  "list_setitem h l i a = Inr h' \<Longrightarrow> lookup_plane h' b = lookup_plane h b"
  by (auto simp: list_setitem_def lookup_list_def lookup_plane_def err_bind_def nth_list_update
      split: if_splits obj.splits)

lemma list_setitem_list:
  "list_setitem h l i a = Inr h' \<Longrightarrow>
     \<exists>xs. lookup_list h l = Inr xs \<and> i < length xs \<and> lookup_list h' l = Inr (xs[i := a])"
  by (auto simp: list_setitem_def lookup_list_def err_bind_def
      split: if_splits obj.splits)

lemma swap_rows_list:
  assumes "swap_rows h l i j = Inr h'"
  shows "\<exists>xs. lookup_list h l = Inr xs \<and> i < length xs \<and> j < length xs
           \<and> lookup_list h' l = Inr (xs[i := xs ! j, j := xs ! i])"
proof -
  from assms obtain h1 xs where xs: "lookup_list h l = Inr xs" "i < length xs" "j < length xs"
    and h1: "list_setitem h l i (xs ! j) = Inr h1"
    and h': "list_setitem h1 l j (xs ! i) = Inr h'"
    by (auto simp: swap_rows_def list_getitem_def err_bind_def split: sum.splits if_splits)
  from list_setitem_list [OF h1] xs have "lookup_list h1 l = Inr (xs[i := xs ! j])" by simp
  with list_setitem_list [OF h'] have "lookup_list h' l = Inr (xs[i := xs ! j, j := xs ! i])"
    by auto
  with xs show ?thesis by blast
qed

lemma swap_rows_plane:
  "swap_rows h l i j = Inr h' \<Longrightarrow> lookup_plane h' b = lookup_plane h b"
proof -
  assume "swap_rows h l i j = Inr h'"
  then obtain h1 x where "list_setitem h l i x = Inr h1" and "\<exists>y. list_setitem h1 l j y = Inr h'"
    by (auto simp: swap_rows_def err_bind_def split: sum.splits)
  then show ?thesis by (auto simp: list_setitem_plane)
qed

lemma swap_rows_row:
  assumes "swap_rows h l i j = Inr h'"
  shows "row_plane h' l i = row_plane h l j"
proof -
  from swap_rows_list [OF assms] obtain xs where xs: "lookup_list h l = Inr xs"
    "i < length xs" "j < length xs" "lookup_list h' l = Inr (xs[i := xs ! j, j := xs ! i])"
    by blast
  have "(xs[i := xs ! j, j := xs ! i]) ! i = xs ! j"
    using xs by (cases "i = j") (simp_all add: nth_list_update)
  with xs swap_rows_plane [OF assms] show ?thesis
    by (simp add: row_plane_def list_getitem_def err_bind_def)
qed

lemma swap_scan_positive:
  "swap_scan h l row d ns sw = Inr (h', sw') \<Longrightarrow>
   (sw \<Longrightarrow> \<exists>c. coeff_at h l row d = Inr c \<and> c > 0) \<Longrightarrow>
   sw' \<Longrightarrow> \<exists>c. coeff_at h' l row d = Inr c \<and> c > 0"
proof (induction ns arbitrary: h sw)
  case Nil
  then show ?case by simp
next
  case (Cons n ns)
  from Cons.prems(1) obtain c where c: "coeff_at h l n d = Inr c"
    by (auto simp: err_bind_def split: sum.splits)
  show ?case
  proof (cases "c > 0")
    case True
    with Cons.prems(1) c obtain h1 where h1: "swap_rows h l row n = Inr h1"
      and rest: "swap_scan h1 l row d ns True = Inr (h', sw')"
      by (auto simp: err_bind_def split: sum.splits)
    from swap_rows_row [OF h1] c True have "\<exists>c. coeff_at h1 l row d = Inr c \<and> c > 0"
      by (simp add: coeff_at_def)
    with Cons.IH [OF rest] Cons.prems(3) show ?thesis by blast
  next
    case False
    with Cons.prems(1) c have "swap_scan h l row d ns sw = Inr (h', sw')"
      by (simp add: err_bind_def)
    from Cons.IH [OF this] Cons.prems(2,3) show ?thesis by blast
  qed
qed

text \<open>
  What decreases in the cursor loop: twice the distance of the cursor from \<open>dims\<close>, plus
  one while the coefficient under the cursor is zero.
\<close>

definition tri_measure :: "heap \<Rightarrow> nat \<Rightarrow> nat \<Rightarrow> nat \<Rightarrow> nat \<Rightarrow> nat" where
  "tri_measure h l dims row d =
     2 * (dims - d) + (case coeff_at h l row d of Inr c \<Rightarrow> if c = 0 then 1 else 0 | Inl e \<Rightarrow> 0)"

text \<open>
  The cursor loop \<open>while dim < dims\<close> for one row. It returns the store and the cursor:
  the cursor is set once before the loop over the rows and is not reset for the next row.
  After a pass of the search that swapped, the loop runs again with the same cursor.
\<close>

function tri_while ::
  "heap \<Rightarrow> nat \<Rightarrow> nat \<Rightarrow> nat \<Rightarrow> nat \<Rightarrow> nat \<Rightarrow> error + heap \<times> nat" where
  "tri_while h l rows dims row d =
     (if d < dims
      then err_bind (coeff_at h l row d)
        (\<lambda>coefficient.
           if coefficient = 0
           then err_bind (swap_scan h l row d [row + 1..<rows - 1] False)
             (\<lambda>(h', swap).
                if swap = False then tri_while h' l rows dims row (d + 1)
                else tri_while h' l rows dims row d)
           else err_bind (clear_below h l row d coefficient [row + 1..<rows])
             (\<lambda>h'. Inr (h', d)))
      else Inr (h, d))"
  by pat_completeness auto

termination
proof (relation "measure (\<lambda>(h, l, rows, dims, row, d). tri_measure h l dims row d)")
  show "wf (measure (\<lambda>(h, l, rows, dims, row, d). tri_measure h l dims row d))" by simp
next
  fix h l rows dims row d and x :: rat and x2 :: "heap \<times> bool" and h' :: heap and swap :: bool
  assume "d < dims" "coeff_at h l row d = Inr x" "x = 0"
     "swap_scan h l row d [row + 1..<rows - 1] False = Inr x2" "(h', swap) = x2" "swap = False"
  then show "((h', l, rows, dims, row, d + 1), (h, l, rows, dims, row, d))
      \<in> measure (\<lambda>(h, l, rows, dims, row, d). tri_measure h l dims row d)"
    by (auto simp: tri_measure_def split: sum.splits)
next
  fix h l rows dims row d and x :: rat and x2 :: "heap \<times> bool" and h' :: heap and swap :: bool
  assume a: "d < dims" "coeff_at h l row d = Inr x" "x = 0"
     "swap_scan h l row d [row + 1..<rows - 1] False = Inr x2" "(h', swap) = x2" "swap \<noteq> False"
  then have "swap_scan h l row d [row + 1..<rows - 1] False = Inr (h', True)" by simp
  from swap_scan_positive [OF this] obtain c where "coeff_at h' l row d = Inr c" "c > 0"
    by blast
  with a show "((h', l, rows, dims, row, d), (h, l, rows, dims, row, d))
      \<in> measure (\<lambda>(h, l, rows, dims, row, d). tri_measure h l dims row d)"
    by (simp add: tri_measure_def)
qed

declare tri_while.simps [simp del]

fun tri_rows ::
  "heap \<Rightarrow> nat \<Rightarrow> nat \<Rightarrow> nat \<Rightarrow> nat \<Rightarrow> nat list \<Rightarrow> error + heap" where
  "tri_rows h l rows dims d [] = Inr h"
| "tri_rows h l rows dims d (row # rest) =
     err_bind (tri_while h l rows dims row d)
       (\<lambda>(h', d'). tri_rows h' l rows dims d' rest)"

definition compute_triangular_form ::
  "heap \<Rightarrow> linear_system \<Rightarrow> error + heap \<times> linear_system" where
  "compute_triangular_form h self =
     err_bind (deepcopy h self)
       (\<lambda>(h1, triangular).
          err_bind (len h1 triangular)
            (\<lambda>rows. let dims = dimension triangular
               in err_bind (tri_rows h1 (planes triangular) rows dims 0 [0..<rows - 1])
                    (\<lambda>h2. Inr (h2, triangular))))"

section \<open>Reduced row echelon form\<close>

text \<open>
  \<open>round(x, 3)\<close>: the nearest multiple of one thousandth, a tie going to the even one
  (Python 3).
\<close>

definition round_half_even :: "rat \<Rightarrow> int" where
  "round_half_even y =
     (let f = \<lfloor>y\<rfloor>; r = y - of_int f
      in if r < 1 / 2 then f else if r > 1 / 2 then f + 1 else if even f then f else f + 1)"

definition py_round3 :: "rat \<Rightarrow> rat" where
  "py_round3 x = of_int (round_half_even (x * 1000)) / 1000"

text \<open>
  The loop \<open>for range_index in range(row, rows - 1)\<close> of the backward pass.
  \<open>coefficient\<close> was read before the loop and is not read again.
\<close>

fun cancel_under ::
  "heap \<Rightarrow> nat \<Rightarrow> nat \<Rightarrow> nat \<Rightarrow> rat \<Rightarrow> nat list \<Rightarrow> error + heap" where
  "cancel_under h l row d coefficient [] = Inr h"
| "cancel_under h l row d coefficient (range_index # rest) =
     (let under_row = range_index + 1
      in err_bind (coeff_at h l under_row d)
           (\<lambda>u. let under_coeff = py_round3 u
              in if under_coeff \<noteq> 0
                 then (let positive = coefficient < 0
                   in err_bind (py_div \<bar>coefficient\<bar> under_coeff)
                     (\<lambda>sub_factor. err_bind (row_plane h l under_row)
                        (\<lambda>p_under. let reduction_plane = plane_mul p_under sub_factor
                           in err_bind (row_plane h l row)
                                (\<lambda>p_row.
                                   let (h1, a) = alloc h (PlaneObj
                                         (if positive then plane_add p_row reduction_plane
                                          else plane_sub p_row reduction_plane))
                                   in err_bind (list_setitem h1 l row a)
                                        (\<lambda>h2. cancel_under h2 l row d coefficient rest)))))
                 else cancel_under h l row d coefficient rest))"

text \<open>
  The cursor loops \<open>while dim > -1\<close>. Here the cursor is an integer: it ends at \<open>-1\<close>.
  The backward pass sets it back to \<open>dims\<close> after every row; the normalisation pass does
  not, so its cursor is handed from one row to the next.
\<close>

function back_while ::
  "heap \<Rightarrow> nat \<Rightarrow> nat \<Rightarrow> nat \<Rightarrow> int \<Rightarrow> error + heap \<times> int" where
  "back_while h l rows row d =
     (if d > - 1
      then err_bind (coeff_at h l row (nat d))
        (\<lambda>coefficient.
           err_bind (if coefficient \<noteq> 0
                     then cancel_under h l row (nat d) coefficient [row..<rows - 1]
                     else Inr h)
             (\<lambda>h'. back_while h' l rows row (d - 1)))
      else Inr (h, d))"
  by pat_completeness auto
termination
  by (relation "measure (\<lambda>(h, l, rows, row, d). nat (d + 1))") auto

declare back_while.simps [simp del]

fun back_rows ::
  "heap \<Rightarrow> nat \<Rightarrow> nat \<Rightarrow> int \<Rightarrow> int \<Rightarrow> nat list \<Rightarrow> error + heap \<times> int" where
  "back_rows h l rows dims d [] = Inr (h, d)"
| "back_rows h l rows dims d (row # rest) =
     err_bind (back_while h l rows row d)
       (\<lambda>(h', d'). back_rows h' l rows dims dims rest)"

function norm_while :: "heap \<Rightarrow> nat \<Rightarrow> nat \<Rightarrow> int \<Rightarrow> error + heap \<times> int" where
  "norm_while h l row d =
     (if d > - 1
      then err_bind (coeff_at h l row (nat d))
        (\<lambda>coefficient.
           err_bind (if coefficient \<noteq> 0
                     then err_bind (py_div 1 coefficient)
                       (\<lambda>sub_factor. err_bind (row_plane h l row)
                          (\<lambda>p. let (h1, a) = alloc h (PlaneObj (plane_mul p sub_factor))
                               in list_setitem h1 l row a))
                     else Inr h)
             (\<lambda>h'. norm_while h' l row (d - 1)))
      else Inr (h, d))"
  by pat_completeness auto
termination
  by (relation "measure (\<lambda>(h, l, row, d). nat (d + 1))") auto

declare norm_while.simps [simp del]

fun norm_rows :: "heap \<Rightarrow> nat \<Rightarrow> int \<Rightarrow> nat list \<Rightarrow> error + heap" where
  "norm_rows h l d [] = Inr h"
| "norm_rows h l d (row # rest) =
     err_bind (norm_while h l row d) (\<lambda>(h', d'). norm_rows h' l d' rest)"

definition compute_rref_form ::
  "heap \<Rightarrow> linear_system \<Rightarrow> error + heap \<times> linear_system" where
  "compute_rref_form h self =
     err_bind (compute_triangular_form h self)
       (\<lambda>(h1, triangular).
          err_bind (deepcopy h1 triangular)
            (\<lambda>(h2, rref).
               err_bind (len h2 rref)
                 (\<lambda>rows. let dims = int (dimension rref) - 1; d = dims
                    in err_bind (back_rows h2 (planes rref) rows dims d (rev [0..<rows]))
                         (\<lambda>(h3, d').
                            err_bind (len h3 rref)
                              (\<lambda>rows'. err_bind (norm_rows h3 (planes rref) d' (rev [0..<rows']))
                                 (\<lambda>h4. Inr (h4, rref)))))))"

text \<open>The rows of a system as values, for reading a result.\<close>

fun lookup_planes :: "heap \<Rightarrow> nat list \<Rightarrow> error + plane list" where
  "lookup_planes h [] = Inr []"
| "lookup_planes h (a # as) =
     err_bind (lookup_plane h a)
       (\<lambda>p. err_bind (lookup_planes h as) (\<lambda>ps. Inr (p # ps)))"

definition rows_of :: "heap \<Rightarrow> linear_system \<Rightarrow> error + plane list" where
  "rows_of h self = err_bind (lookup_list h (planes self)) (lookup_planes h)"

section \<open>Construction\<close>

lemma check_dimensions_planes:
  "lookup_planes h xs = Inr ps \<Longrightarrow>
   check_dimensions h d xs =
     (if \<forall>p\<in>set ps. plane_dimension p = d then Inr () else Inl (Exception SAME_DIM_MSG))"
proof (induction xs arbitrary: ps)
  case Nil
  then show ?case by simp
next
  case (Cons a xs)
  from Cons.prems obtain p qs where p: "lookup_plane h a = Inr p"
    and qs: "lookup_planes h xs = Inr qs" and ps: "ps = p # qs"
    by (auto simp: err_bind_def split: sum.splits)
  from Cons.IH [OF qs] p ps show ?case by (simp add: err_bind_def)
qed

text \<open>
  Claim C5, as amended. Let the list at \<open>l\<close> hold references to the planes \<open>ps\<close>. If
  some plane differs in dimension from the first, the constructor raises
  \<open>Exception(SAME_DIM_MSG)\<close>. If the list is not empty and every plane has the dimension
  \<open>d\<close>, the constructor returns a system over that list whose dimension is \<open>d\<close>.
\<close>

theorem init_same_dimension:
  assumes "lookup_list h l = Inr xs" and "lookup_planes h xs = Inr ps"
  shows "((\<exists>p\<in>set ps. plane_dimension p \<noteq> plane_dimension (hd ps)) \<longrightarrow>
            init h l = Inl (Exception SAME_DIM_MSG)) \<and>
         (ps \<noteq> [] \<and> (\<forall>p\<in>set ps. plane_dimension p = d) \<longrightarrow>
            init h l = Inr \<lparr>planes = l, dimension = d\<rparr>)"
proof (cases xs)
  case Nil
  with assms show ?thesis by simp
next
  case (Cons a as)
  with assms(2) obtain p qs where p: "lookup_plane h a = Inr p" and ps: "ps = p # qs"
    by (auto simp: err_bind_def split: sum.splits)
  have "init h l = err_bind (check_dimensions h (plane_dimension p) xs)
          (\<lambda>u. Inr \<lparr>planes = l, dimension = plane_dimension p\<rparr>)"
    using assms(1) Cons p by (simp add: init_def err_bind_def Let_def)
  with check_dimensions_planes [OF assms(2), of "plane_dimension p"] ps show ?thesis
    by (auto simp: err_bind_def)
qed

text \<open>
  The theorem at two stores: rows of dimensions 2 and 1, and two rows of dimension 2.
\<close>

theorem init_same_dimension_witness:
  "init [PlaneObj \<lparr>normal_vector = [1, 2], constant_term = 3\<rparr>,
         PlaneObj \<lparr>normal_vector = [1], constant_term = 3\<rparr>,
         ListObj [0, 1]] 2 = Inl (Exception SAME_DIM_MSG) \<and>
   init [PlaneObj \<lparr>normal_vector = [1, 2], constant_term = 3\<rparr>,
         PlaneObj \<lparr>normal_vector = [0, 1], constant_term = 4\<rparr>,
         ListObj [0, 1]] 2 = Inr \<lparr>planes = 2, dimension = 2\<rparr>"
proof -
  let ?p = "\<lparr>normal_vector = [1, 2], constant_term = 3\<rparr>"
  let ?q = "\<lparr>normal_vector = [1], constant_term = 3\<rparr>"
  let ?r = "\<lparr>normal_vector = [0, 1], constant_term = 4\<rparr>"
  let ?h1 = "[PlaneObj ?p, PlaneObj ?q, ListObj [0, 1]]"
  let ?h2 = "[PlaneObj ?p, PlaneObj ?r, ListObj [0, 1]]"
  have l1: "lookup_list ?h1 2 = Inr [0, 1]" and l2: "lookup_list ?h2 2 = Inr [0, 1]"
    by (simp_all add: lookup_list_def)
  have p1: "lookup_planes ?h1 [0, 1] = Inr [?p, ?q]"
    and p2: "lookup_planes ?h2 [0, 1] = Inr [?p, ?r]"
    by (simp_all add: lookup_plane_def err_bind_def)
  have "\<exists>p\<in>set [?p, ?q]. plane_dimension p \<noteq> plane_dimension (hd [?p, ?q])"
    by (simp add: plane_dimension_def)
  with init_same_dimension [OF l1 p1] have a: "init ?h1 2 = Inl (Exception SAME_DIM_MSG)"
    by blast
  have "[?p, ?r] \<noteq> [] \<and> (\<forall>p\<in>set [?p, ?r]. plane_dimension p = 2)"
    by (simp add: plane_dimension_def)
  with init_same_dimension [OF l2 p2, of 2]
  have b: "init ?h2 2 = Inr \<lparr>planes = 2, dimension = 2\<rparr>"
    by blast
  from a b show ?thesis by blast
qed

text \<open>
  The claim as written also promises success for the empty list, whose rows are all of
  one dimension for want of any: the constructor raises \<open>IndexError\<close> there.
\<close>

theorem init_same_dimension_counterexample:
  "lookup_list [ListObj []] 0 = Inr [] \<and>
   lookup_planes [ListObj []] [] = Inr [] \<and>
   list_all (\<lambda>p. plane_dimension p = 0) ([] :: plane list) \<and>
   init [ListObj []] 0 = Inl IndexError"
  by (simp add: lookup_list_def init_def err_bind_def)

text \<open>
  Claim C10. On an empty list the constructor raises \<open>IndexError\<close>, from reading
  \<open>planes[0]\<close>: it neither raises the exception for mismatched dimensions nor returns a
  system.
\<close>

theorem init_empty:
  "lookup_list h l = Inr [] \<Longrightarrow>
   init h l = Inl IndexError \<and> init h l \<noteq> Inl (Exception SAME_DIM_MSG) \<and>
   (\<forall>s. init h l \<noteq> Inr s)"
  by (simp add: init_def err_bind_def)

theorem init_empty_witness:
  "lookup_list [ListObj []] 0 = Inr [] \<and> init [ListObj []] 0 = Inl IndexError"
  using init_empty [of "[ListObj []]" 0] by (simp add: lookup_list_def)

section \<open>Replacing a row\<close>

lemma lookup_planes_map:
  "lookup_planes h xs = Inr ps \<longleftrightarrow> map (lookup_plane h) xs = map Inr ps"
proof (induction xs arbitrary: ps)
  case Nil
  then show ?case by auto
next
  case (Cons a xs)
  show ?case
  proof (cases ps)
    case Nil
    then show ?thesis by (auto simp: err_bind_def split: sum.splits)
  next
    case (Cons p qs)
    with Cons.IH [of qs] show ?thesis by (auto simp: err_bind_def split: sum.splits)
  qed
qed

lemma lookup_planes_length: "lookup_planes h xs = Inr ps \<Longrightarrow> length ps = length xs"
  by (metis length_map lookup_planes_map)

lemma lookup_plane_list_write:
  "lookup_list h l = Inr xs \<Longrightarrow> lookup_plane (h[l := ListObj ys]) = lookup_plane h"
  by (rule ext)
    (auto simp: lookup_list_def lookup_plane_def nth_list_update split: if_splits obj.splits)

lemma lookup_list_list_write:
  "lookup_list h l = Inr xs \<Longrightarrow> lookup_list (h[l := ListObj ys]) l = Inr ys"
  by (auto simp: lookup_list_def split: if_splits obj.splits)

lemma py_index_bound: "py_index n i = Inr k \<Longrightarrow> k < n"
  by (auto simp: py_index_def Let_def split: if_splits)

text \<open>
  Claim C6. Let \<open>a\<close> be the address of the plane \<open>p\<close> and \<open>ps\<close> the rows of the system.
  If the dimension of \<open>p\<close> is not the dimension of the system, \<open>__setitem__\<close> raises
  \<open>Exception(SAME_DIM_MSG)\<close> and leaves the store as it was, whatever the index. If the
  dimensions agree and the index denotes the position \<open>k\<close> of the list, the call returns
  and the rows are then \<open>ps\<close> with \<open>p\<close> at position \<open>k\<close>.
\<close>

theorem setitem_dimension_check:
  assumes "lookup_plane h a = Inr p" and "rows_of h self = Inr ps"
  shows "(plane_dimension p \<noteq> dimension self \<longrightarrow>
            setitem h self index a = (Some (Exception SAME_DIM_MSG), h)) \<and>
         (plane_dimension p = dimension self \<and> py_index (length ps) index = Inr k \<longrightarrow>
            (\<exists>h'. setitem h self index a = (None, h') \<and> rows_of h' self = Inr (ps[k := p])))"
proof -
  from assms(2) obtain xs where xs: "lookup_list h (planes self) = Inr xs"
    and ps: "lookup_planes h xs = Inr ps"
    by (auto simp: rows_of_def err_bind_def split: sum.splits)
  have len: "length ps = length xs" using ps by (rule lookup_planes_length)
  have mismatch: "setitem h self index a = (Some (Exception SAME_DIM_MSG), h)"
    if "plane_dimension p \<noteq> dimension self"
    using that assms(1) by (simp add: setitem_def)
  have match: "\<exists>h'. setitem h self index a = (None, h') \<and> rows_of h' self = Inr (ps[k := p])"
    if eq: "plane_dimension p = dimension self" and k: "py_index (length ps) index = Inr k"
  proof -
    let ?h' = "h[planes self := ListObj (xs[k := a])]"
    have "setitem h self index a = (None, ?h')"
      using eq k assms(1) xs len by (simp add: setitem_def)
    moreover have "map (lookup_plane ?h') (xs[k := a]) = map Inr (ps[k := p])"
      using ps assms(1) by (simp add: lookup_planes_map lookup_plane_list_write [OF xs] map_update)
    then have "rows_of ?h' self = Inr (ps[k := p])"
      by (simp add: rows_of_def err_bind_def lookup_list_list_write [OF xs] lookup_planes_map)
    ultimately show ?thesis by blast
  qed
  from mismatch match show ?thesis by blast
qed

theorem setitem_dimension_check_witness:
  "setitem [PlaneObj \<lparr>normal_vector = [1, 2], constant_term = 3\<rparr>,
            PlaneObj \<lparr>normal_vector = [0, 1], constant_term = 4\<rparr>,
            ListObj [0, 1],
            PlaneObj \<lparr>normal_vector = [5], constant_term = 6\<rparr>]
      \<lparr>planes = 2, dimension = 2\<rparr> 1 3 =
     (Some (Exception SAME_DIM_MSG),
      [PlaneObj \<lparr>normal_vector = [1, 2], constant_term = 3\<rparr>,
       PlaneObj \<lparr>normal_vector = [0, 1], constant_term = 4\<rparr>,
       ListObj [0, 1],
       PlaneObj \<lparr>normal_vector = [5], constant_term = 6\<rparr>]) \<and>
   (\<exists>h'. setitem [PlaneObj \<lparr>normal_vector = [1, 2], constant_term = 3\<rparr>,
                  PlaneObj \<lparr>normal_vector = [0, 1], constant_term = 4\<rparr>,
                  ListObj [0, 1],
                  PlaneObj \<lparr>normal_vector = [5], constant_term = 6\<rparr>]
            \<lparr>planes = 2, dimension = 2\<rparr> (- 1) 0 = (None, h') \<and>
         rows_of h' \<lparr>planes = 2, dimension = 2\<rparr> =
           Inr [\<lparr>normal_vector = [1, 2], constant_term = 3\<rparr>,
                \<lparr>normal_vector = [1, 2], constant_term = 3\<rparr>])"
proof -
  let ?p = "\<lparr>normal_vector = [1, 2], constant_term = 3\<rparr>"
  let ?q = "\<lparr>normal_vector = [0, 1], constant_term = 4\<rparr>"
  let ?r = "\<lparr>normal_vector = [5], constant_term = 6\<rparr>"
  let ?h = "[PlaneObj ?p, PlaneObj ?q, ListObj [0, 1], PlaneObj ?r]"
  let ?s = "\<lparr>planes = 2, dimension = 2\<rparr>"
  have rows: "rows_of ?h ?s = Inr [?p, ?q]"
    by (simp add: rows_of_def lookup_list_def lookup_plane_def err_bind_def)
  have r: "lookup_plane ?h 3 = Inr ?r" and p: "lookup_plane ?h 0 = Inr ?p"
    by (simp_all add: lookup_plane_def)
  have "plane_dimension ?r \<noteq> dimension ?s" by (simp add: plane_dimension_def)
  with setitem_dimension_check [OF r rows, of 1]
  have a: "setitem ?h ?s 1 3 = (Some (Exception SAME_DIM_MSG), ?h)" by blast
  have "plane_dimension ?p = dimension ?s \<and> py_index (length [?p, ?q]) (- 1) = Inr 1"
    by (simp add: plane_dimension_def py_index_def)
  with setitem_dimension_check [OF p rows, of "- 1" 1]
  have b: "\<exists>h'. setitem ?h ?s (- 1) 0 = (None, h') \<and> rows_of h' ?s = Inr [?p, ?p]"
    by simp
  from a b show ?thesis by blast
qed

section \<open>The scan for the first nonzero coefficients\<close>

text \<open>
  Three notions for stating what the scan returns. A plane is answered when the query
  either returns an index or raises the signal with the text \<open>msg\<close>. The entry for an
  answered plane is the index returned, or \<open>-1\<close> for the signal. For the query
  \<open>first_nonzero_index\<close> that entry is the position of the first nonzero coefficient, or
  \<open>-1\<close> when there is none.
\<close>

definition answers :: "string \<Rightarrow> (rat list \<Rightarrow> error + int) \<Rightarrow> plane \<Rightarrow> bool" where
  "answers msg fnz p =
     (case fnz (normal_vector p) of
        Inr k \<Rightarrow> True
      | Inl e \<Rightarrow> e = NoNonZeroElements msg)"

definition index_or_sentinel :: "(rat list \<Rightarrow> error + int) \<Rightarrow> plane \<Rightarrow> int" where
  "index_or_sentinel fnz p = (case fnz (normal_vector p) of Inr k \<Rightarrow> k | Inl e \<Rightarrow> - 1)"

definition first_nonzero_or_sentinel :: "plane \<Rightarrow> int" where
  "first_nonzero_or_sentinel p =
     (if list_all (\<lambda>x. x = 0) (normal_vector p) then - 1
      else int (length (takeWhile (\<lambda>x. x = 0) (normal_vector p))))"

lemma upt_add_Suc: "[n..<n + Suc m] = n # [Suc n..<Suc n + m]"
  by (simp add: upt_rec [of n])

lemma lookup_planes_Cons:
  "lookup_planes h (a # xs) = Inr ps \<Longrightarrow>
   \<exists>p qs. lookup_plane h a = Inr p \<and> lookup_planes h xs = Inr qs \<and> ps = p # qs"
  by (auto simp: err_bind_def split: sum.splits)

lemma scan_planes_answers:
  assumes "lookup_planes h xs = Inr ps" and "list_all (answers msg fnz) ps"
    and "length indices = n + length xs"
  shows "scan_planes msg fnz h (zip [n..<n + length xs] xs) indices =
           Inr (take n indices @
                map2 (\<lambda>p old. case fnz (normal_vector p) of Inr k \<Rightarrow> k | Inl e \<Rightarrow> old)
                  ps (drop n indices))"
  using assms
proof (induction xs arbitrary: ps n indices)
  case Nil
  then show ?case by simp
next
  case (Cons a xs)
  from lookup_planes_Cons [OF Cons.prems(1)] obtain p qs where p: "lookup_plane h a = Inr p"
    and qs: "lookup_planes h xs = Inr qs" and ps: "ps = p # qs"
    by blast
  from Cons.prems(2) ps have ok: "answers msg fnz p" and oks: "list_all (answers msg fnz) qs"
    by simp_all
  have zip: "zip [n..<n + length (a # xs)] (a # xs) = (n, a) # zip [Suc n..<Suc n + length xs] xs"
    using upt_add_Suc [of n "length xs"] by simp
  from Cons.prems(3) have n: "n < length indices" by simp
  then have dr: "drop n indices = indices ! n # drop (Suc n) indices"
    by (simp add: Cons_nth_drop_Suc)
  show ?case
  proof (cases "fnz (normal_vector p)")
    case (Inr k)
    have len: "length (indices[n := k]) = Suc n + length xs" using Cons.prems(3) by simp
    have "scan_planes msg fnz h (zip [n..<n + length (a # xs)] (a # xs)) indices =
          scan_planes msg fnz h (zip [Suc n..<Suc n + length xs] xs) (indices[n := k])"
      unfolding zip using p Inr by (simp add: err_bind_def)
    also note Cons.IH [OF qs oks len]
    finally show ?thesis
      using ps Inr dr n by (simp add: take_Suc_conv_app_nth)
  next
    case (Inl e)
    with ok have e: "e = NoNonZeroElements msg" by (simp add: answers_def)
    have len: "length indices = Suc n + length xs" using Cons.prems(3) by simp
    have "scan_planes msg fnz h (zip [n..<n + length (a # xs)] (a # xs)) indices =
          scan_planes msg fnz h (zip [Suc n..<Suc n + length xs] xs) indices"
      unfolding zip using p Inl e by (simp add: err_bind_def)
    also note Cons.IH [OF qs oks len]
    finally show ?thesis
      using ps Inl dr n by (simp add: take_Suc_conv_app_nth)
  qed
qed

lemma scan_planes_fails:
  assumes "lookup_planes h xs = Inr (qs @ p # rs)" and "list_all (answers msg fnz) qs"
    and "fnz (normal_vector p) = Inl e" and "e \<noteq> NoNonZeroElements msg"
  shows "scan_planes msg fnz h (zip [n..<n + length xs] xs) indices = Inl e"
  using assms(1,2)
proof (induction qs arbitrary: xs n indices)
  case Nil
  then obtain a ys where xs: "xs = a # ys" and a: "lookup_plane h a = Inr p"
    by (cases xs) (auto simp: err_bind_def split: sum.splits)
  have "zip [n..<n + length xs] xs = (n, a) # zip [Suc n..<Suc n + length ys] ys"
    using xs upt_add_Suc [of n "length ys"] by simp
  with a assms(3,4) show ?case
    by (cases e) (simp_all add: err_bind_def)
next
  case (Cons q qs)
  then obtain a ys where xs: "xs = a # ys" and a: "lookup_plane h a = Inr q"
    and ys: "lookup_planes h ys = Inr (qs @ p # rs)"
    by (cases xs) (auto simp: err_bind_def split: sum.splits)
  from Cons.prems(2) have q: "answers msg fnz q" and qs: "list_all (answers msg fnz) qs"
    by simp_all
  define rest where "rest = zip [Suc n..<Suc n + length ys] ys"
  have zip: "zip [n..<n + length xs] xs = (n, a) # rest"
    using xs upt_add_Suc [of n "length ys"] by (simp add: rest_def)
  from q a obtain indices' where
    "scan_planes msg fnz h ((n, a) # rest) indices = scan_planes msg fnz h rest indices'"
    by (auto simp: answers_def err_bind_def split: sum.splits)
  with Cons.IH [OF ys qs, of "Suc n" indices'] show ?case
    by (simp only: zip rest_def)
qed

lemma first_nonzero_from_takeWhile:
  "first_nonzero_from msg k xs =
     (if list_all (\<lambda>x. x = 0) xs then Inl (NoNonZeroElements msg)
      else Inr (k + int (length (takeWhile (\<lambda>x. x = 0) xs))))"
  by (induction xs arbitrary: k) auto

text \<open>
  Claim C7. Let \<open>ps\<close> be the rows of the system. With the query of the plane class, the
  scan returns for each row, in order, the position of its first nonzero coefficient, or
  \<open>-1\<close> for a row of zeros. For any query \<open>fnz\<close>: if every row is answered, the scan
  returns the answers with \<open>-1\<close> for each signal; if the first row that is not answered
  raises \<open>e\<close>, the scan raises \<open>e\<close>. The scan reads the store and writes to its own list
  \<open>indices\<close> only, so it returns no store.
\<close>

theorem get_first_nonzero_indexes_scan:
  assumes "rows_of h self = Inr ps"
  shows "get_first_nonzero_indexes msg (first_nonzero_index msg) h self =
           Inr (map first_nonzero_or_sentinel ps) \<and>
         (list_all (answers msg fnz) ps \<longrightarrow>
            get_first_nonzero_indexes msg fnz h self = Inr (map (index_or_sentinel fnz) ps)) \<and>
         (\<forall>qs p rs e. ps = qs @ p # rs \<and> list_all (answers msg fnz) qs \<and>
            fnz (normal_vector p) = Inl e \<and> e \<noteq> NoNonZeroElements msg \<longrightarrow>
            get_first_nonzero_indexes msg fnz h self = Inl e)"
proof -
  from assms obtain xs where xs: "lookup_list h (planes self) = Inr xs"
    and ps: "lookup_planes h xs = Inr ps"
    by (auto simp: rows_of_def err_bind_def split: sum.splits)
  have len: "length ps = length xs"
    using ps by (rule lookup_planes_length)
  have gen: "get_first_nonzero_indexes msg f h self = Inr (map (index_or_sentinel f) ps)"
    if "list_all (answers msg f) ps" for f
  proof -
    have "scan_planes msg f h (zip [0..<0 + length xs] xs) (replicate (length xs) (- 1)) =
          Inr (take 0 (replicate (length xs) (- 1)) @
               map2 (\<lambda>p old. case f (normal_vector p) of Inr k \<Rightarrow> k | Inl e \<Rightarrow> old)
                 ps (drop 0 (replicate (length xs) (- 1))))"
      by (rule scan_planes_answers [OF ps that]) simp
    moreover have "map2 (\<lambda>p old. case f (normal_vector p) of Inr k \<Rightarrow> k | Inl e \<Rightarrow> old)
                 ps (replicate (length xs) (- 1)) = map (index_or_sentinel f) ps"
      using len by (auto simp: list_eq_iff_nth_eq index_or_sentinel_def)
    ultimately show ?thesis
      using xs by (simp add: get_first_nonzero_indexes_def err_bind_def Let_def)
  qed
  have "list_all (answers msg (first_nonzero_index msg)) ps"
    by (simp add: list_all_iff answers_def first_nonzero_index_def first_nonzero_from_takeWhile)
  from gen [OF this]
  have "get_first_nonzero_indexes msg (first_nonzero_index msg) h self =
           Inr (map first_nonzero_or_sentinel ps)"
    by (simp add: index_or_sentinel_def first_nonzero_or_sentinel_def first_nonzero_index_def
        first_nonzero_from_takeWhile cong: map_cong)
  moreover have "get_first_nonzero_indexes msg fnz h self = Inl e"
    if "ps = qs @ p # rs" "list_all (answers msg fnz) qs"
      "fnz (normal_vector p) = Inl e" "e \<noteq> NoNonZeroElements msg" for qs p rs e
  proof -
    from ps that(1) have "lookup_planes h xs = Inr (qs @ p # rs)" by simp
    from scan_planes_fails [OF this that(2,3,4), of 0 "replicate (length xs) (- 1)"] xs
    show ?thesis by (simp add: get_first_nonzero_indexes_def err_bind_def Let_def)
  qed
  ultimately show ?thesis using gen by blast
qed

theorem get_first_nonzero_indexes_scan_witness:
  "get_first_nonzero_indexes ''none'' (first_nonzero_index ''none'')
     [PlaneObj \<lparr>normal_vector = [0, 3], constant_term = 1\<rparr>,
      PlaneObj \<lparr>normal_vector = [0, 0], constant_term = 2\<rparr>,
      ListObj [0, 1]] \<lparr>planes = 2, dimension = 2\<rparr> = Inr [1, - 1] \<and>
   get_first_nonzero_indexes ''none'' (\<lambda>v. if v = [0, 0] then Inl ZeroDivisionError else Inr 7)
     [PlaneObj \<lparr>normal_vector = [0, 3], constant_term = 1\<rparr>,
      PlaneObj \<lparr>normal_vector = [0, 0], constant_term = 2\<rparr>,
      ListObj [0, 1]] \<lparr>planes = 2, dimension = 2\<rparr> = Inl ZeroDivisionError"
proof -
  let ?p = "\<lparr>normal_vector = [0, 3], constant_term = 1\<rparr>"
  let ?q = "\<lparr>normal_vector = [0, 0], constant_term = 2\<rparr>"
  let ?h = "[PlaneObj ?p, PlaneObj ?q, ListObj [0, 1]]"
  let ?s = "\<lparr>planes = 2, dimension = 2\<rparr>"
  let ?f = "\<lambda>v :: rat list. if v = [0, 0] then Inl ZeroDivisionError else Inr (7 :: int)"
  have rows: "rows_of ?h ?s = Inr [?p, ?q]"
    by (simp add: rows_of_def lookup_list_def lookup_plane_def err_bind_def)
  note inst = get_first_nonzero_indexes_scan [OF rows, of "''none''" ?f]
  from inst have a: "get_first_nonzero_indexes ''none'' (first_nonzero_index ''none'') ?h ?s
      = Inr [1, - 1]"
    by (simp add: first_nonzero_or_sentinel_def)
  have "[?p, ?q] = [?p] @ ?q # [] \<and> list_all (answers ''none'' ?f) [?p] \<and>
        ?f (normal_vector ?q) = Inl ZeroDivisionError \<and>
        ZeroDivisionError \<noteq> NoNonZeroElements ''none''"
    by (simp add: answers_def)
  with inst have b: "get_first_nonzero_indexes ''none'' ?f ?h ?s = Inl ZeroDivisionError"
    by blast
  from a b show ?thesis by blast
qed

section \<open>The working copy\<close>

text \<open>
  Both routines work on a copy. \<open>copy_rows n0 h l ps\<close> says that the list at \<open>l\<close> and
  every plane it refers to were created after the store had \<open>n0\<close> objects, and that the
  rows of the list are the planes \<open>ps\<close>. \<open>copy_ok\<close> adds the number of rows and their
  common dimension. \<open>memo_ok\<close> is what the memo of a deep copy keeps: every copy is new
  and equal to its original.
\<close>

definition copy_rows :: "nat \<Rightarrow> heap \<Rightarrow> nat \<Rightarrow> plane list \<Rightarrow> bool" where
  "copy_rows n0 h l ps \<longleftrightarrow>
     n0 \<le> l \<and>
     (\<exists>xs. lookup_list h l = Inr xs \<and> lookup_planes h xs = Inr ps \<and>
        list_all (\<lambda>a. n0 \<le> a) xs)"

definition copy_ok :: "nat \<Rightarrow> heap \<Rightarrow> nat \<Rightarrow> nat \<Rightarrow> nat \<Rightarrow> bool" where
  "copy_ok n0 h l rows dims \<longleftrightarrow>
     (\<exists>ps. copy_rows n0 h l ps \<and> length ps = rows \<and>
        list_all (\<lambda>p. plane_dimension p = dims) ps)"

definition memo_ok :: "nat \<Rightarrow> heap \<Rightarrow> (nat \<times> nat) list \<Rightarrow> bool" where
  "memo_ok n0 h memo \<longleftrightarrow>
     (\<forall>(a, a') \<in> set memo. n0 \<le> a' \<and> (\<exists>p. lookup_plane h a = Inr p \<and> lookup_plane h a' = Inr p))"

lemma lookup_list_bound: "lookup_list h l = Inr xs \<Longrightarrow> l < length h"
  by (simp add: lookup_list_def split: if_splits)

lemma lookup_plane_append:
  "lookup_plane (h @ [ob]) a =
     (if a = length h then (case ob of PlaneObj p \<Rightarrow> Inr p | ListObj xs \<Rightarrow> Inl TypeError)
      else lookup_plane h a)"
  by (auto simp: lookup_plane_def nth_append)

lemma lookup_plane_bound: "lookup_plane h a = Inr p \<Longrightarrow> a < length h"
  by (simp add: lookup_plane_def split: if_splits)

lemma lookup_planes_nth:
  "lookup_planes h xs = Inr ps \<Longrightarrow> i < length xs \<Longrightarrow> lookup_plane h (xs ! i) = Inr (ps ! i)"
  by (metis length_map lookup_planes_map nth_map)

lemma lookup_planes_append:
  assumes "lookup_planes h xs = Inr ps"
  shows "lookup_planes (h @ [ob]) xs = Inr ps"
proof -
  have "map (lookup_plane (h @ [ob])) xs = map (lookup_plane h) xs"
  proof (rule nth_equalityI)
    fix i assume "i < length (map (lookup_plane (h @ [ob])) xs)"
    then have i: "i < length xs" by simp
    from lookup_plane_bound [OF lookup_planes_nth [OF assms i]] lookup_planes_nth [OF assms i] i
    show "map (lookup_plane (h @ [ob])) xs ! i = map (lookup_plane h) xs ! i"
      by (simp add: lookup_plane_append)
  qed simp
  with assms show ?thesis by (simp add: lookup_planes_map)
qed

lemma lookup_list_append:
  "lookup_list h l = Inr xs \<Longrightarrow> lookup_list (h @ [ob]) l = Inr xs"
  by (auto simp: lookup_list_def nth_append split: if_splits)

lemma copy_rows_row_plane:
  assumes "copy_rows n0 h l ps"
  shows "row_plane h l row = (if row < length ps then Inr (ps ! row) else Inl IndexError)"
proof -
  from assms obtain xs where xs: "lookup_list h l = Inr xs" and ps: "lookup_planes h xs = Inr ps"
    by (auto simp: copy_rows_def)
  from ps have len: "length ps = length xs" by (rule lookup_planes_length)
  show ?thesis
    using xs len lookup_planes_nth [OF ps, of row]
    by (simp add: row_plane_def list_getitem_def err_bind_def)
qed

lemma copy_rows_coeff:
  assumes "copy_rows n0 h l ps"
  shows "coeff_at h l row d =
     (if row < length ps then plane_getitem (ps ! row) d else Inl IndexError)"
  by (simp add: coeff_at_def copy_rows_row_plane [OF assms] err_bind_def)

lemma copy_rows_store:
  assumes ok: "copy_rows n0 h l ps" and row: "row < length ps"
  shows "\<exists>h2. list_setitem (h @ [PlaneObj p]) l row (length h) = Inr h2 \<and>
           copy_rows n0 h2 l (ps[row := p]) \<and> take n0 h2 = take n0 h"
proof -
  from ok obtain xs where l: "n0 \<le> l" and xs: "lookup_list h l = Inr xs"
    and ps: "lookup_planes h xs = Inr ps" and fresh: "list_all (\<lambda>a. n0 \<le> a) xs"
    by (auto simp: copy_rows_def)
  from ps have len: "length ps = length xs" by (rule lookup_planes_length)
  let ?h1 = "h @ [PlaneObj p]"
  let ?xs = "xs[row := length h]"
  let ?h2 = "?h1[l := ListObj ?xs]"
  have lh: "l < length h" using xs by (rule lookup_list_bound)
  have xs1: "lookup_list ?h1 l = Inr xs" using xs by (rule lookup_list_append)
  have set: "list_setitem ?h1 l row (length h) = Inr ?h2"
    using xs1 len row by (simp add: list_setitem_def err_bind_def)
  have "map (lookup_plane ?h1) xs = map Inr ps"
    using lookup_planes_append [OF ps] by (simp add: lookup_planes_map)
  then have "map (lookup_plane ?h2) ?xs = map Inr (ps[row := p])"
    by (simp add: lookup_plane_list_write [OF xs1] map_update lookup_plane_append)
  then have ps2: "lookup_planes ?h2 ?xs = Inr (ps[row := p])" by (simp add: lookup_planes_map)
  have xs2: "lookup_list ?h2 l = Inr ?xs" using xs1 by (rule lookup_list_list_write)
  have fresh2: "list_all (\<lambda>a. n0 \<le> a) ?xs"
    using fresh l lh by (auto simp: list_all_iff dest!: set_update_subset_insert [THEN subsetD])
  have "take n0 ?h2 = take n0 h" using l lh by simp
  with set xs2 ps2 fresh2 l show ?thesis
    unfolding copy_rows_def by (intro exI [of _ ?h2]) auto
qed

lemma copy_rows_swap:
  assumes ok: "copy_rows n0 h l ps" and i: "i < length ps" and j: "j < length ps"
  shows "\<exists>h'. swap_rows h l i j = Inr h' \<and>
           copy_rows n0 h' l (ps[i := ps ! j, j := ps ! i]) \<and> take n0 h' = take n0 h"
proof -
  from ok obtain xs where l: "n0 \<le> l" and xs: "lookup_list h l = Inr xs"
    and ps: "lookup_planes h xs = Inr ps" and fresh: "list_all (\<lambda>a. n0 \<le> a) xs"
    by (auto simp: copy_rows_def)
  from ps have len: "length ps = length xs" by (rule lookup_planes_length)
  let ?ys = "xs[i := xs ! j]"
  let ?h1 = "h[l := ListObj ?ys]"
  let ?zs = "?ys[j := xs ! i]"
  let ?h2 = "?h1[l := ListObj ?zs]"
  have ys: "lookup_list ?h1 l = Inr ?ys" using xs by (rule lookup_list_list_write)
  have zs: "lookup_list ?h2 l = Inr ?zs" using ys by (rule lookup_list_list_write)
  have sw: "swap_rows h l i j = Inr ?h2"
    using xs i j ys len
    by (simp add: swap_rows_def list_getitem_def list_setitem_def err_bind_def)
  have m: "map (lookup_plane h) xs = map Inr ps" using ps by (simp add: lookup_planes_map)
  have "map (lookup_plane h) ?zs = map Inr (ps[i := ps ! j, j := ps ! i])"
    using m i j len by (simp add: map_update) (metis nth_map)
  then have ps2: "lookup_planes ?h2 ?zs = Inr (ps[i := ps ! j, j := ps ! i])"
    by (simp add: lookup_planes_map lookup_plane_list_write [OF xs])
  have sub: "set ?zs \<subseteq> set xs"
    using i j len by (auto dest!: set_update_subset_insert [THEN subsetD])
  have fresh2: "list_all (\<lambda>a. n0 \<le> a) ?zs" using fresh sub by (auto simp: list_all_iff)
  have "take n0 ?h2 = take n0 h" using l by simp
  with sw zs ps2 fresh2 l show ?thesis
    unfolding copy_rows_def by (intro exI [of _ ?h2]) auto
qed

lemma plane_dimension_mul [simp]: "plane_dimension (plane_mul p c) = plane_dimension p"
  by (simp add: plane_dimension_def plane_mul_def)

lemma plane_dimension_add [simp]:
  "plane_dimension q = plane_dimension p \<Longrightarrow> plane_dimension (plane_add p q) = plane_dimension p"
  by (simp add: plane_dimension_def plane_add_def)

lemma plane_dimension_sub [simp]:
  "plane_dimension q = plane_dimension p \<Longrightarrow> plane_dimension (plane_sub p q) = plane_dimension p"
  by (simp add: plane_dimension_def plane_sub_def)

lemma copy_ok_coeff:
  assumes "copy_ok n0 h l rows dims" and "row < rows" and "d < dims"
  shows "\<exists>c. coeff_at h l row d = Inr c"
proof -
  from assms(1) obtain ps where ps: "copy_rows n0 h l ps" "length ps = rows"
    "list_all (\<lambda>p. plane_dimension p = dims) ps"
    by (auto simp: copy_ok_def)
  from ps(2,3) assms(2) have "plane_dimension (ps ! row) = dims" by (simp add: list_all_length)
  with assms(2,3) ps(2) show ?thesis
    by (simp add: copy_rows_coeff [OF ps(1)] plane_getitem_def plane_dimension_def)
qed

lemma copy_ok_row_plane:
  assumes "copy_ok n0 h l rows dims" and "row < rows"
  shows "\<exists>p. row_plane h l row = Inr p \<and> plane_dimension p = dims"
proof -
  from assms(1) obtain ps where ps: "copy_rows n0 h l ps" "length ps = rows"
    "list_all (\<lambda>p. plane_dimension p = dims) ps"
    by (auto simp: copy_ok_def)
  from ps(2,3) assms(2) have "plane_dimension (ps ! row) = dims" by (simp add: list_all_length)
  with assms(2) ps(2) show ?thesis by (simp add: copy_rows_row_plane [OF ps(1)])
qed

lemma copy_ok_store:
  assumes ok: "copy_ok n0 h l rows dims" and row: "row < rows"
    and p: "plane_dimension p = dims"
  shows "\<exists>h2. list_setitem (h @ [PlaneObj p]) l row (length h) = Inr h2 \<and>
           copy_ok n0 h2 l rows dims \<and> take n0 h2 = take n0 h"
proof -
  from ok obtain ps where ps: "copy_rows n0 h l ps" "length ps = rows"
    "list_all (\<lambda>p. plane_dimension p = dims) ps"
    by (auto simp: copy_ok_def)
  from row ps(2) have "row < length ps" by simp
  from copy_rows_store [OF ps(1) this, of p] obtain h2
    where h2: "list_setitem (h @ [PlaneObj p]) l row (length h) = Inr h2"
      "copy_rows n0 h2 l (ps[row := p])" "take n0 h2 = take n0 h"
    by blast
  have "list_all (\<lambda>p. plane_dimension p = dims) (ps[row := p])"
    using ps(3) p by (auto simp: list_all_iff dest!: set_update_subset_insert [THEN subsetD])
  with h2 ps(2) show ?thesis unfolding copy_ok_def by (intro exI [of _ h2]) auto
qed

lemma copy_ok_swap:
  assumes ok: "copy_ok n0 h l rows dims" and i: "i < rows" and j: "j < rows"
  shows "\<exists>h'. swap_rows h l i j = Inr h' \<and> copy_ok n0 h' l rows dims \<and> take n0 h' = take n0 h"
proof -
  from ok obtain ps where ps: "copy_rows n0 h l ps" "length ps = rows"
    "list_all (\<lambda>p. plane_dimension p = dims) ps"
    by (auto simp: copy_ok_def)
  from i j ps(2) have ij: "i < length ps" "j < length ps" by simp_all
  from copy_rows_swap [OF ps(1) ij] obtain h'
    where h': "swap_rows h l i j = Inr h'"
      "copy_rows n0 h' l (ps[i := ps ! j, j := ps ! i])" "take n0 h' = take n0 h"
    by blast
  have "set (ps[i := ps ! j, j := ps ! i]) \<subseteq> set ps"
    using ij by (auto dest!: set_update_subset_insert [THEN subsetD])
  with ps(3) have "list_all (\<lambda>p. plane_dimension p = dims) (ps[i := ps ! j, j := ps ! i])"
    by (auto simp: list_all_iff)
  with h' ps(2) show ?thesis unfolding copy_ok_def by (intro exI [of _ h']) auto
qed

subsection \<open>The loops keep the working copy, and return\<close>

lemma swap_scan_ok:
  assumes "copy_ok n0 h l rows dims" and "row < rows" and "d < dims"
    and "\<forall>n\<in>set ns. n < rows"
  shows "\<exists>h' sw'. swap_scan h l row d ns sw = Inr (h', sw') \<and>
           copy_ok n0 h' l rows dims \<and> take n0 h' = take n0 h"
  using assms(1,4)
proof (induction ns arbitrary: h sw)
  case Nil
  then show ?case by simp
next
  case (Cons n ns)
  from Cons.prems(2) have n: "n < rows" and ns: "\<forall>n\<in>set ns. n < rows" by simp_all
  from copy_ok_coeff [OF Cons.prems(1) n assms(3)] obtain c where c: "coeff_at h l n d = Inr c"
    by blast
  show ?case
  proof (cases "c > 0")
    case True
    from copy_ok_swap [OF Cons.prems(1) assms(2) n] obtain h1
      where h1: "swap_rows h l row n = Inr h1" "copy_ok n0 h1 l rows dims"
        "take n0 h1 = take n0 h"
      by blast
    from Cons.IH [OF h1(2) ns, of True] h1(1,3) c True show ?thesis
      by (auto simp: err_bind_def)
  next
    case False
    from Cons.IH [OF Cons.prems(1) ns, of sw] c False show ?thesis
      by (auto simp: err_bind_def)
  qed
qed

lemma clear_below_ok:
  assumes "copy_ok n0 h l rows dims" and "row < rows" and "d < dims"
    and "\<forall>n\<in>set ns. n < rows" and "coefficient \<noteq> 0"
  shows "\<exists>h'. clear_below h l row d coefficient ns = Inr h' \<and>
           copy_ok n0 h' l rows dims \<and> take n0 h' = take n0 h"
  using assms(1,4)
proof (induction ns arbitrary: h)
  case Nil
  then show ?case by simp
next
  case (Cons n ns)
  from Cons.prems(2) have n: "n < rows" and ns: "\<forall>n\<in>set ns. n < rows" by simp_all
  from copy_ok_coeff [OF Cons.prems(1) n assms(3)] obtain c where c: "coeff_at h l n d = Inr c"
    by blast
  show ?case
  proof (cases "c \<noteq> 0")
    case True
    from copy_ok_row_plane [OF Cons.prems(1) assms(2)] obtain p_row
      where p_row: "row_plane h l row = Inr p_row" "plane_dimension p_row = dims" by blast
    from copy_ok_row_plane [OF Cons.prems(1) n] obtain p_next
      where p_next: "row_plane h l n = Inr p_next" "plane_dimension p_next = dims" by blast
    let ?p = "plane_add p_next (plane_mul p_row (c / coefficient * (- 1)))"
    have "plane_dimension ?p = dims" using p_row(2) p_next(2) by simp
    from copy_ok_store [OF Cons.prems(1) n this] obtain h2
      where h2: "list_setitem (h @ [PlaneObj ?p]) l n (length h) = Inr h2"
        "copy_ok n0 h2 l rows dims" "take n0 h2 = take n0 h"
      by blast
    from Cons.IH [OF h2(2) ns] h2(1,3) c True p_row(1) p_next(1) assms(5) show ?thesis
      by (auto simp: err_bind_def py_div_def alloc_def Let_def)
  next
    case False
    from Cons.IH [OF Cons.prems(1) ns] c False show ?thesis
      by (auto simp: err_bind_def)
  qed
qed

lemma tri_while_ok:
  assumes "row < rows"
  shows "copy_ok n0 h l rows dims \<Longrightarrow>
         \<exists>h' d'. tri_while h l rows dims row d = Inr (h', d') \<and>
           copy_ok n0 h' l rows dims \<and> take n0 h' = take n0 h"
  using assms
proof (induction h l rows dims row d rule: tri_while.induct)
  case (1 h l rows dims row d)
  show ?case
  proof (cases "d < dims")
    case False
    with "1.prems" show ?thesis by (simp add: tri_while.simps [of h l rows dims row d])
  next
    case True
    from copy_ok_coeff [OF "1.prems"(1,2) True] obtain c where c: "coeff_at h l row d = Inr c"
      by blast
    show ?thesis
    proof (cases "c = 0")
      case False
      have "\<forall>n\<in>set [row + 1..<rows]. n < rows" by simp
      from clear_below_ok [OF "1.prems"(1,2) True this False] True c False show ?thesis
        by (auto simp: tri_while.simps [of h l rows dims row d] err_bind_def)
    next
      case zero: True
      have "\<forall>n\<in>set [row + 1..<rows - 1]. n < rows" by auto
      from swap_scan_ok [OF "1.prems"(1,2) True this, of False] obtain h1 sw
        where h1: "swap_scan h l row d [row + 1..<rows - 1] False = Inr (h1, sw)"
          "copy_ok n0 h1 l rows dims" "take n0 h1 = take n0 h"
        by blast
      show ?thesis
      proof (cases sw)
        case True
        from "1.IH"(2) [OF \<open>d < dims\<close> c zero h1(1) refl _ h1(2) "1.prems"(2)] True
        obtain h' d' where "tri_while h1 l rows dims row d = Inr (h', d')"
          "copy_ok n0 h' l rows dims" "take n0 h' = take n0 h1"
          by auto
        with h1 c zero True \<open>d < dims\<close> show ?thesis
          by (auto simp: tri_while.simps [of h l rows dims row d] err_bind_def)
      next
        case False
        from "1.IH"(1) [OF \<open>d < dims\<close> c zero h1(1) refl _ h1(2) "1.prems"(2)] False
        obtain h' d' where "tri_while h1 l rows dims row (d + 1) = Inr (h', d')"
          "copy_ok n0 h' l rows dims" "take n0 h' = take n0 h1"
          by auto
        with h1 c zero False \<open>d < dims\<close> show ?thesis
          by (auto simp: tri_while.simps [of h l rows dims row d] err_bind_def)
      qed
    qed
  qed
qed

lemma tri_rows_ok:
  assumes "copy_ok n0 h l rows dims" and "\<forall>r\<in>set rs. r < rows"
  shows "\<exists>h'. tri_rows h l rows dims d rs = Inr h' \<and>
           copy_ok n0 h' l rows dims \<and> take n0 h' = take n0 h"
  using assms
proof (induction rs arbitrary: h d)
  case Nil
  then show ?case by simp
next
  case (Cons r rs)
  from Cons.prems(2) have r: "r < rows" and rs: "\<forall>r\<in>set rs. r < rows" by simp_all
  from tri_while_ok [OF r Cons.prems(1), of d] obtain h1 d1
    where h1: "tri_while h l rows dims r d = Inr (h1, d1)" "copy_ok n0 h1 l rows dims"
      "take n0 h1 = take n0 h"
    by blast
  from Cons.IH [OF h1(2) rs, of d1] h1(1,3) show ?case
    by (auto simp: err_bind_def)
qed

lemma cancel_under_ok:
  assumes "copy_ok n0 h l rows dims" and "row < rows" and "d < dims"
    and "\<forall>n\<in>set ns. n + 1 < rows"
  shows "\<exists>h'. cancel_under h l row d coefficient ns = Inr h' \<and>
           copy_ok n0 h' l rows dims \<and> take n0 h' = take n0 h"
  using assms(1,4)
proof (induction ns arbitrary: h)
  case Nil
  then show ?case by simp
next
  case (Cons n ns)
  from Cons.prems(2) have n: "n + 1 < rows" and ns: "\<forall>n\<in>set ns. n + 1 < rows" by simp_all
  from copy_ok_coeff [OF Cons.prems(1) n assms(3)] obtain u where u: "coeff_at h l (n + 1) d = Inr u"
    by blast
  show ?case
  proof (cases "py_round3 u \<noteq> 0")
    case True
    from copy_ok_row_plane [OF Cons.prems(1) assms(2)] obtain p_row
      where p_row: "row_plane h l row = Inr p_row" "plane_dimension p_row = dims" by blast
    from copy_ok_row_plane [OF Cons.prems(1) n] obtain p_under
      where p_under: "row_plane h l (n + 1) = Inr p_under" "plane_dimension p_under = dims"
      by blast
    let ?red = "plane_mul p_under (\<bar>coefficient\<bar> / py_round3 u)"
    let ?p = "if coefficient < 0 then plane_add p_row ?red else plane_sub p_row ?red"
    have "plane_dimension ?p = dims" using p_row(2) p_under(2) by simp
    from copy_ok_store [OF Cons.prems(1) assms(2) this] obtain h2
      where h2: "list_setitem (h @ [PlaneObj ?p]) l row (length h) = Inr h2"
        "copy_ok n0 h2 l rows dims" "take n0 h2 = take n0 h"
      by blast
    from Cons.IH [OF h2(2) ns] obtain h' where
      h': "cancel_under h2 l row d coefficient ns = Inr h'"  "copy_ok n0 h' l rows dims"
        "take n0 h' = take n0 h2" by blast
    have "cancel_under h l row d coefficient (n # ns) = cancel_under h2 l row d coefficient ns"
      using h2(1) u True p_row(1) p_under(1)
      by (simp add: err_bind_def py_div_def alloc_def Let_def)
    with h' h2(3) show ?thesis by simp
  next
    case False
    from Cons.IH [OF Cons.prems(1) ns] u False show ?thesis
      by (auto simp: err_bind_def Let_def)
  qed
qed

lemma back_while_ok:
  assumes "row < rows" and "d < int dims"
  shows "copy_ok n0 h l rows dims \<Longrightarrow>
         \<exists>h' d'. back_while h l rows row d = Inr (h', d') \<and>
           copy_ok n0 h' l rows dims \<and> take n0 h' = take n0 h"
  using assms
proof (induction h l rows row d rule: back_while.induct)
  case (1 h l rows row d)
  show ?case
  proof (cases "d > - 1")
    case False
    with "1.prems" show ?thesis by (simp add: back_while.simps [of h l rows row d])
  next
    case True
    with "1.prems"(3) have nd: "nat d < dims" by simp
    from copy_ok_coeff [OF "1.prems"(1,2) nd] obtain c where c: "coeff_at h l row (nat d) = Inr c"
      by blast
    have "\<exists>h1. (if c \<noteq> 0 then cancel_under h l row (nat d) c [row..<rows - 1] else Inr h) = Inr h1
            \<and> copy_ok n0 h1 l rows dims \<and> take n0 h1 = take n0 h"
    proof (cases "c \<noteq> 0")
      case True
      have "\<forall>n\<in>set [row..<rows - 1]. n + 1 < rows" by auto
      from cancel_under_ok [OF "1.prems"(1,2) nd this, of c] True show ?thesis by simp
    next
      case False
      with "1.prems"(1) show ?thesis by simp
    qed
    then obtain h1 where h1:
      "(if c \<noteq> 0 then cancel_under h l row (nat d) c [row..<rows - 1] else Inr h) = Inr h1"
      "copy_ok n0 h1 l rows dims" "take n0 h1 = take n0 h"
      by blast
    from "1.prems"(3) have "d - 1 < int dims" by simp
    from "1.IH" [OF True c h1(1) h1(2) "1.prems"(2) this]
    obtain h' d' where "back_while h1 l rows row (d - 1) = Inr (h', d')"
      "copy_ok n0 h' l rows dims" "take n0 h' = take n0 h1"
      by blast
    with h1 c True show ?thesis
      by (simp add: back_while.simps [of h l rows row d] err_bind_def)
  qed
qed

lemma back_rows_ok:
  assumes "copy_ok n0 h l rows dims" and "\<forall>r\<in>set rs. r < rows" and "d < int dims"
    and "ds < int dims"
  shows "\<exists>h' d'. back_rows h l rows ds d rs = Inr (h', d') \<and> d' < int dims \<and>
           copy_ok n0 h' l rows dims \<and> take n0 h' = take n0 h"
  using assms(1,2,3)
proof (induction rs arbitrary: h d)
  case Nil
  then show ?case by simp
next
  case (Cons r rs)
  from Cons.prems(2) have r: "r < rows" and rs: "\<forall>r\<in>set rs. r < rows" by simp_all
  from back_while_ok [OF r Cons.prems(3) Cons.prems(1)] obtain h1 d1
    where h1: "back_while h l rows r d = Inr (h1, d1)" "copy_ok n0 h1 l rows dims"
      "take n0 h1 = take n0 h"
    by blast
  from Cons.IH [OF h1(2) rs assms(4)] h1(1,3) show ?case
    by (auto simp: err_bind_def)
qed

lemma norm_while_ok:
  assumes "row < rows" and "d < int dims"
  shows "copy_ok n0 h l rows dims \<Longrightarrow>
         \<exists>h' d'. norm_while h l row d = Inr (h', d') \<and> d' < int dims \<and>
           copy_ok n0 h' l rows dims \<and> take n0 h' = take n0 h"
  using assms
proof (induction h l row d rule: norm_while.induct)
  case (1 h l row d)
  show ?case
  proof (cases "d > - 1")
    case False
    with "1.prems" show ?thesis by (simp add: norm_while.simps [of h l row d])
  next
    case True
    with "1.prems"(3) have nd: "nat d < dims" by simp
    from copy_ok_coeff [OF "1.prems"(1,2) nd] obtain c where c: "coeff_at h l row (nat d) = Inr c"
      by blast
    let ?body = "if c \<noteq> 0
                 then err_bind (py_div 1 c)
                   (\<lambda>sub_factor. err_bind (row_plane h l row)
                      (\<lambda>p. let (h1, a) = alloc h (PlaneObj (plane_mul p sub_factor))
                           in list_setitem h1 l row a))
                 else Inr h"
    have "\<exists>h1. ?body = Inr h1 \<and> copy_ok n0 h1 l rows dims \<and> take n0 h1 = take n0 h"
    proof (cases "c \<noteq> 0")
      case True
      from copy_ok_row_plane [OF "1.prems"(1,2)] obtain p
        where p: "row_plane h l row = Inr p" "plane_dimension p = dims" by blast
      have "plane_dimension (plane_mul p (1 / c)) = dims" using p(2) by simp
      from copy_ok_store [OF "1.prems"(1,2) this] True p(1) show ?thesis
        by (simp add: err_bind_def py_div_def alloc_def)
    next
      case False
      with "1.prems"(1) show ?thesis by simp
    qed
    then obtain h1 where h1: "?body = Inr h1" "copy_ok n0 h1 l rows dims"
      "take n0 h1 = take n0 h"
      by blast
    from "1.prems"(3) have "d - 1 < int dims" by simp
    from "1.IH" [OF True c h1(1) h1(2) "1.prems"(2) this]
    obtain h' d' where "norm_while h1 l row (d - 1) = Inr (h', d')" "d' < int dims"
      "copy_ok n0 h' l rows dims" "take n0 h' = take n0 h1"
      by blast
    with h1 c True show ?thesis
      by (simp add: norm_while.simps [of h l row d] err_bind_def)
  qed
qed

lemma norm_rows_ok:
  assumes "copy_ok n0 h l rows dims" and "\<forall>r\<in>set rs. r < rows" and "d < int dims"
  shows "\<exists>h'. norm_rows h l d rs = Inr h' \<and>
           copy_ok n0 h' l rows dims \<and> take n0 h' = take n0 h"
  using assms
proof (induction rs arbitrary: h d)
  case Nil
  then show ?case by simp
next
  case (Cons r rs)
  from Cons.prems(2) have r: "r < rows" and rs: "\<forall>r\<in>set rs. r < rows" by simp_all
  from norm_while_ok [OF r Cons.prems(3) Cons.prems(1)] obtain h1 d1
    where h1: "norm_while h l r d = Inr (h1, d1)" "d1 < int dims" "copy_ok n0 h1 l rows dims"
      "take n0 h1 = take n0 h"
    by blast
  from Cons.IH [OF h1(3) rs h1(2)] h1(1,4) show ?case
    by (auto simp: err_bind_def)
qed

subsection \<open>The deep copy and the two routines\<close>

lemma lookup_plane_extend:
  "lookup_plane h a = Inr p \<Longrightarrow> lookup_plane (h @ ext) a = Inr p"
  by (auto simp: lookup_plane_def nth_append split: if_splits)

lemma lookup_planes_extend:
  "lookup_planes h xs = Inr ps \<Longrightarrow> lookup_planes (h @ ext) xs = Inr ps"
proof (induction xs arbitrary: ps)
  case Nil
  then show ?case by simp
next
  case (Cons a xs)
  then obtain p qs where "lookup_plane h a = Inr p" "lookup_planes h xs = Inr qs" "ps = p # qs"
    by (auto simp: err_bind_def split: sum.splits)
  with Cons.IH [of qs] show ?case by (simp add: err_bind_def lookup_plane_extend)
qed

lemma memo_ok_extend: "memo_ok n0 h memo \<Longrightarrow> memo_ok n0 (h @ ext) memo"
  by (fastforce simp: memo_ok_def lookup_plane_extend)

lemma deepcopy_refs_ok:
  assumes "lookup_planes h as = Inr ps" and "n0 \<le> length h" and "memo_ok n0 h memo"
  shows "\<exists>ext memo' bs. deepcopy_refs h memo as = Inr (h @ ext, memo', bs) \<and>
           lookup_planes (h @ ext) bs = Inr ps \<and> list_all (\<lambda>b. n0 \<le> b) bs"
  using assms
proof (induction as arbitrary: h memo ps)
  case Nil
  then have "deepcopy_refs h memo [] = Inr (h @ [], memo, [])" by simp
  with Nil show ?case by (intro exI [of _ "[]"] exI [of _ memo]) auto
next
  case (Cons a as)
  from Cons.prems(1) obtain p qs where p: "lookup_plane h a = Inr p"
    and qs: "lookup_planes h as = Inr qs" and ps: "ps = p # qs"
    by (auto simp: err_bind_def split: sum.splits)
  show ?case
  proof (cases "map_of memo a")
    case (Some a')
    then have "(a, a') \<in> set memo" by (rule map_of_SomeD)
    with Cons.prems(3) p have a': "n0 \<le> a'" "lookup_plane h a' = Inr p"
      by (auto simp: memo_ok_def)
    from Cons.IH [OF qs Cons.prems(2,3)] obtain ext memo' bs
      where r: "deepcopy_refs h memo as = Inr (h @ ext, memo', bs)"
        "lookup_planes (h @ ext) bs = Inr qs" "list_all (\<lambda>b. n0 \<le> b) bs"
      by blast
    have "deepcopy_refs h memo (a # as) = Inr (h @ ext, memo', a' # bs)"
      using Some r(1) by (simp add: err_bind_def)
    moreover have "lookup_planes (h @ ext) (a' # bs) = Inr ps"
      using r(2) a'(2) ps by (simp add: err_bind_def lookup_plane_extend)
    ultimately show ?thesis
      using r(3) a'(1) by (intro exI [of _ ext] exI [of _ memo'] exI [of _ "a' # bs"]) auto
  next
    case None
    let ?h1 = "h @ [PlaneObj p]"
    have qs1: "lookup_planes ?h1 as = Inr qs" using qs by (rule lookup_planes_extend)
    have n1: "n0 \<le> length ?h1" using Cons.prems(2) by simp
    have new: "lookup_plane ?h1 (length h) = Inr p" by (simp add: lookup_plane_def)
    have "memo_ok n0 ?h1 ((a, length h) # memo)"
      using memo_ok_extend [OF Cons.prems(3), of "[PlaneObj p]"] Cons.prems(2) new
        lookup_plane_extend [OF p, of "[PlaneObj p]"]
      by (simp add: memo_ok_def)
    from Cons.IH [OF qs1 n1 this] obtain ext memo' bs
      where r: "deepcopy_refs ?h1 ((a, length h) # memo) as = Inr (?h1 @ ext, memo', bs)"
        "lookup_planes (?h1 @ ext) bs = Inr qs" "list_all (\<lambda>b. n0 \<le> b) bs"
      by blast
    have "deepcopy_refs h memo (a # as) = Inr (h @ (PlaneObj p # ext), memo', length h # bs)"
      using None p r(1) by (simp add: err_bind_def alloc_def)
    moreover have "lookup_planes (h @ (PlaneObj p # ext)) (length h # bs) = Inr ps"
      using r(2) ps lookup_plane_extend [OF new, of ext] by (simp add: err_bind_def)
    ultimately show ?thesis
      using r(3) Cons.prems(2)
      by (intro exI [of _ "PlaneObj p # ext"] exI [of _ memo'] exI [of _ "length h # bs"]) auto
  qed
qed

lemma deepcopy_ok:
  assumes "rows_of h s = Inr ps"
  shows "\<exists>ext t. deepcopy h s = Inr (h @ ext, t) \<and> copy_rows (length h) (h @ ext) (planes t) ps \<and>
           dimension t = dimension s"
proof -
  from assms obtain xs where xs: "lookup_list h (planes s) = Inr xs"
    and ps: "lookup_planes h xs = Inr ps"
    by (auto simp: rows_of_def err_bind_def split: sum.splits)
  have "memo_ok (length h) h []" by (simp add: memo_ok_def)
  from deepcopy_refs_ok [OF ps order_refl this] obtain ext memo' bs
    where r: "deepcopy_refs h [] xs = Inr (h @ ext, memo', bs)"
      "lookup_planes (h @ ext) bs = Inr ps" "list_all (\<lambda>b. length h \<le> b) bs"
    by blast
  let ?h2 = "h @ (ext @ [ListObj bs])"
  let ?t = "\<lparr>planes = length (h @ ext), dimension = dimension s\<rparr>"
  have "deepcopy h s = Inr (?h2, ?t)"
    using xs r(1) by (simp add: deepcopy_def err_bind_def alloc_def)
  moreover have "lookup_list ?h2 (length (h @ ext)) = Inr bs"
    by (simp add: lookup_list_def nth_append)
  moreover have "lookup_planes ?h2 bs = Inr ps"
    using lookup_planes_extend [OF r(2), of "[ListObj bs]"] by simp
  ultimately show ?thesis
    using r(3) by (intro exI [of _ "ext @ [ListObj bs]"] exI [of _ ?t]) (auto simp: copy_rows_def)
qed

lemma copy_rows_len:
  assumes "copy_rows n0 h (planes t) ps"
  shows "len h t = Inr (length ps)"
proof -
  from assms obtain xs where "lookup_list h (planes t) = Inr xs" "lookup_planes h xs = Inr ps"
    by (auto simp: copy_rows_def)
  with lookup_planes_length [of h xs ps] show ?thesis by (simp add: len_def err_bind_def)
qed

lemma copy_rows_rows_of: "copy_rows n0 h (planes t) ps \<Longrightarrow> rows_of h t = Inr ps"
  by (auto simp: copy_rows_def rows_of_def err_bind_def)

lemma copy_rows_mono: "copy_rows n0 h l ps \<Longrightarrow> m \<le> n0 \<Longrightarrow> copy_rows m h l ps"
  by (fastforce simp: copy_rows_def list_all_iff)

lemma copy_ok_mono: "copy_ok n0 h l rows dims \<Longrightarrow> m \<le> n0 \<Longrightarrow> copy_ok m h l rows dims"
  unfolding copy_ok_def by (blast intro: copy_rows_mono)

lemma compute_triangular_form_ok:
  assumes "rows_of h s = Inr ps" and "list_all (\<lambda>p. plane_dimension p = dimension s) ps"
  shows "\<exists>h' t. compute_triangular_form h s = Inr (h', t) \<and> take (length h) h' = h \<and>
           copy_ok (length h) h' (planes t) (length ps) (dimension s) \<and>
           dimension t = dimension s"
proof -
  from deepcopy_ok [OF assms(1)] obtain ext t
    where t: "deepcopy h s = Inr (h @ ext, t)" "copy_rows (length h) (h @ ext) (planes t) ps"
      "dimension t = dimension s"
    by blast
  have t_eq: "t = \<lparr>planes = planes t, dimension = dimension t\<rparr>" by simp
  have rows: "len (h @ ext) t = Inr (length ps)"
    using t(2) by (rule copy_rows_len)
  have ok: "copy_ok (length h) (h @ ext) (planes t) (length ps) (dimension s)"
    using t(2) assms(2) by (auto simp: copy_ok_def)
  have "\<forall>r\<in>set [0..<length ps - 1]. r < length ps" by auto
  from tri_rows_ok [OF ok this, of 0] obtain h'
    where h': "tri_rows (h @ ext) (planes t) (length ps) (dimension s) 0 [0..<length ps - 1]
                 = Inr h'"
      "copy_ok (length h) h' (planes t) (length ps) (dimension s)"
      "take (length h) h' = take (length h) (h @ ext)"
    by blast
  have "compute_triangular_form h s = Inr (h', t)"
    using t(1,3) rows h'(1) by (simp add: compute_triangular_form_def err_bind_def)
  with h'(2,3) t(3) show ?thesis by simp
qed

lemma copy_ok_rows_of:
  assumes "copy_ok n0 h (planes t) rows dims"
  shows "\<exists>ps. rows_of h t = Inr ps \<and> length ps = rows \<and>
           list_all (\<lambda>p. plane_dimension p = dims) ps"
  using assms by (auto simp: copy_ok_def copy_rows_def rows_of_def err_bind_def)

lemma compute_rref_form_ok:
  assumes "rows_of h s = Inr ps" and "list_all (\<lambda>p. plane_dimension p = dimension s) ps"
  shows "\<exists>h' t. compute_rref_form h s = Inr (h', t) \<and> take (length h) h' = h \<and>
           copy_ok (length h) h' (planes t) (length ps) (dimension s) \<and>
           dimension t = dimension s"
proof -
  let ?rows = "length ps" and ?dims = "dimension s"
  from compute_triangular_form_ok [OF assms] obtain h1 tri
    where tri: "compute_triangular_form h s = Inr (h1, tri)" "take (length h) h1 = h"
      "copy_ok (length h) h1 (planes tri) ?rows ?dims" "dimension tri = ?dims"
    by blast
  from copy_ok_rows_of [OF tri(3)] obtain ps1
    where ps1: "rows_of h1 tri = Inr ps1" "length ps1 = ?rows"
      "list_all (\<lambda>p. plane_dimension p = ?dims) ps1"
    by blast
  from deepcopy_ok [OF ps1(1)] obtain ext t
    where t: "deepcopy h1 tri = Inr (h1 @ ext, t)"
      "copy_rows (length h1) (h1 @ ext) (planes t) ps1" "dimension t = dimension tri"
    by blast
  let ?l = "planes t"
  have len_h: "length h \<le> length h1"
    using tri(2) by (metis length_take min.cobounded1)
  have rows: "len (h1 @ ext) t = Inr ?rows"
    using copy_rows_len [OF t(2)] ps1(2) by simp
  have ok: "copy_ok (length h1) (h1 @ ext) ?l ?rows ?dims"
    using t(2) ps1(2,3) by (auto simp: copy_ok_def)
  have rs: "\<forall>r\<in>set (rev [0..<?rows]). r < ?rows" by simp
  have d: "int ?dims - 1 < int ?dims" by simp
  from back_rows_ok [OF ok rs d d] obtain h3 d'
    where h3: "back_rows (h1 @ ext) ?l ?rows (int ?dims - 1) (int ?dims - 1) (rev [0..<?rows])
                 = Inr (h3, d')"
      "d' < int ?dims" "copy_ok (length h1) h3 ?l ?rows ?dims"
      "take (length h1) h3 = take (length h1) (h1 @ ext)"
    by blast
  from copy_ok_rows_of [OF h3(3)] have rows3: "len h3 t = Inr ?rows"
    by (auto simp: rows_of_def len_def err_bind_def split: sum.splits dest: lookup_planes_length)
  from norm_rows_ok [OF h3(3) rs h3(2)] obtain h4
    where h4: "norm_rows h3 ?l d' (rev [0..<?rows]) = Inr h4"
      "copy_ok (length h1) h4 ?l ?rows ?dims" "take (length h1) h4 = take (length h1) h3"
    by blast
  have "compute_rref_form h s = Inr (h4, t)"
    using tri(1,4) t(1,3) rows h3(1) rows3 h4(1)
    by (simp add: compute_rref_form_def err_bind_def Let_def)
  moreover have "take (length h1) h4 = h1" using h4(3) h3(4) by simp
  then have "take (length h) h4 = h"
    using tri(2) len_h by (metis min.absorb1 take_take)
  moreover have "copy_ok (length h) h4 ?l ?rows ?dims" using h4(2) len_h by (rule copy_ok_mono)
  ultimately show ?thesis using t(3) tri(4) by simp
qed

lemma check_dimensions_rows:
  "check_dimensions h d xs = Inr u \<Longrightarrow>
   \<exists>ps. lookup_planes h xs = Inr ps \<and> list_all (\<lambda>p. plane_dimension p = d) ps"
proof (induction xs)
  case Nil
  then show ?case by simp
next
  case (Cons a xs)
  then show ?case by (auto simp: err_bind_def split: sum.splits if_splits)
qed

lemma init_rows:
  assumes "init h l = Inr s"
  shows "\<exists>ps. rows_of h s = Inr ps \<and> ps \<noteq> [] \<and>
           list_all (\<lambda>p. plane_dimension p = dimension s) ps \<and> planes s = l"
proof -
  from assms obtain xs p0 u where xs: "lookup_list h l = Inr xs" "xs \<noteq> []"
    and chk: "check_dimensions h (plane_dimension p0) xs = Inr u"
    and s: "s = \<lparr>planes = l, dimension = plane_dimension p0\<rparr>"
    by (auto simp: init_def err_bind_def Let_def simp del: check_dimensions.simps
        split: sum.splits list.splits)
  from check_dimensions_rows [OF chk] obtain ps where ps: "lookup_planes h xs = Inr ps"
    "list_all (\<lambda>p. plane_dimension p = plane_dimension p0) ps"
    by blast
  from ps(1) xs(2) have "ps \<noteq> []" using lookup_planes_length by fastforce
  with xs ps s show ?thesis by (auto simp: rows_of_def err_bind_def)
qed

lemma lookup_list_extend:
  "lookup_list h l = Inr xs \<Longrightarrow> lookup_list (h @ ext) l = Inr xs"
  by (auto simp: lookup_list_def nth_append split: if_splits)

lemma rows_of_extend:
  assumes "rows_of h s = Inr ps" and "take (length h) h' = h"
  shows "rows_of h' s = Inr ps"
proof -
  from assms(2) have "h' = h @ drop (length h) h'" by (metis append_take_drop_id)
  then obtain ext where h': "h' = h @ ext" ..
  from assms(1) obtain xs where "lookup_list h (planes s) = Inr xs" "lookup_planes h xs = Inr ps"
    by (auto simp: rows_of_def err_bind_def split: sum.splits)
  then show ?thesis
    unfolding h' by (simp add: rows_of_def err_bind_def lookup_list_extend lookup_planes_extend)
qed

section \<open>The receiver is left alone\<close>

text \<open>
  Claim C4. For a system \<open>s\<close> that the constructor accepts in the store \<open>h\<close>, both
  \<open>compute_triangular_form\<close> and \<open>compute_rref_form\<close> return a store \<open>h'\<close> and a system
  \<open>t\<close> such that every object of \<open>h\<close> is unchanged in \<open>h'\<close> (so the rows of \<open>s\<close> are what
  they were), and the list of \<open>t\<close> and every plane in it are objects that did not exist in
  \<open>h\<close>.
\<close>

theorem compute_forms_copy:
  assumes "init h l = Inr s"
  shows "(\<exists>h' t. compute_triangular_form h s = Inr (h', t) \<and> take (length h) h' = h \<and>
            rows_of h' s = rows_of h s \<and> (\<exists>ps. copy_rows (length h) h' (planes t) ps)) \<and>
         (\<exists>h' t. compute_rref_form h s = Inr (h', t) \<and> take (length h) h' = h \<and>
            rows_of h' s = rows_of h s \<and> (\<exists>ps. copy_rows (length h) h' (planes t) ps))"
proof -
  from init_rows [OF assms] obtain ps where ps: "rows_of h s = Inr ps"
    "list_all (\<lambda>p. plane_dimension p = dimension s) ps"
    by blast
  from compute_triangular_form_ok [OF ps] obtain h1 t1
    where t1: "compute_triangular_form h s = Inr (h1, t1)" "take (length h) h1 = h"
      "copy_ok (length h) h1 (planes t1) (length ps) (dimension s)"
    by blast
  from compute_rref_form_ok [OF ps] obtain h2 t2
    where t2: "compute_rref_form h s = Inr (h2, t2)" "take (length h) h2 = h"
      "copy_ok (length h) h2 (planes t2) (length ps) (dimension s)"
    by blast
  from t1(3) have c1: "\<exists>ps. copy_rows (length h) h1 (planes t1) ps" by (auto simp: copy_ok_def)
  from t2(3) have c2: "\<exists>ps. copy_rows (length h) h2 (planes t2) ps" by (auto simp: copy_ok_def)
  from t1 t2 c1 c2 rows_of_extend [OF ps(1) t1(2)] rows_of_extend [OF ps(1) t2(2)] ps(1)
  show ?thesis by simp
qed

theorem compute_forms_copy_witness:
  "init [PlaneObj \<lparr>normal_vector = [0, 2], constant_term = 2\<rparr>,
         PlaneObj \<lparr>normal_vector = [1, 1], constant_term = 1\<rparr>,
         PlaneObj \<lparr>normal_vector = [3, 1], constant_term = 0\<rparr>,
         ListObj [0, 1, 2]] 3 = Inr \<lparr>planes = 3, dimension = 2\<rparr> \<and>
   (\<exists>h' t. compute_rref_form
       [PlaneObj \<lparr>normal_vector = [0, 2], constant_term = 2\<rparr>,
        PlaneObj \<lparr>normal_vector = [1, 1], constant_term = 1\<rparr>,
        PlaneObj \<lparr>normal_vector = [3, 1], constant_term = 0\<rparr>,
        ListObj [0, 1, 2]] \<lparr>planes = 3, dimension = 2\<rparr> = Inr (h', t) \<and>
      take 4 h' = [PlaneObj \<lparr>normal_vector = [0, 2], constant_term = 2\<rparr>,
        PlaneObj \<lparr>normal_vector = [1, 1], constant_term = 1\<rparr>,
        PlaneObj \<lparr>normal_vector = [3, 1], constant_term = 0\<rparr>,
        ListObj [0, 1, 2]] \<and> 4 \<le> planes t)"
proof -
  let ?h = "[PlaneObj \<lparr>normal_vector = [0, 2], constant_term = 2\<rparr>,
         PlaneObj \<lparr>normal_vector = [1, 1], constant_term = 1\<rparr>,
         PlaneObj \<lparr>normal_vector = [3, 1], constant_term = 0\<rparr>,
         ListObj [0, 1, 2]]"
  have i: "init ?h 3 = Inr \<lparr>planes = 3, dimension = 2\<rparr>"
    by (simp add: init_def lookup_list_def lookup_plane_def err_bind_def plane_dimension_def)
  have len: "length ?h = 4" by simp
  from compute_forms_copy [OF i] obtain h' t where
    r: "compute_rref_form ?h \<lparr>planes = 3, dimension = 2\<rparr> = Inr (h', t)"
    and old: "take (length ?h) h' = ?h"
    and new: "\<exists>ps. copy_rows (length ?h) h' (planes t) ps"
    by blast
  from old have "take 4 h' = ?h" by (simp only: len)
  moreover from new have "4 \<le> planes t" unfolding len copy_rows_def by blast
  ultimately show ?thesis using i r by blast
qed

section \<open>Termination\<close>

text \<open>
  Claim C9. For a system that the constructor accepts, \<open>compute_triangular_form\<close> and
  \<open>compute_rref_form\<close> return a result: every loop of the model is a total function
  (the cursor loops by their termination proofs, the loops over ranges by recursion on the
  range) and no step raises. The last part is the argument for the cursor loop of the
  triangular form: when the coefficient under the cursor is zero, the next iteration has a
  smaller \<open>tri_measure\<close>, because either the cursor has advanced or the swap has put a
  nonzero coefficient under it.
\<close>

theorem compute_forms_return:
  assumes "init h l = Inr s"
  shows "(\<exists>r. compute_triangular_form h s = Inr r) \<and> (\<exists>r. compute_rref_form h s = Inr r) \<and>
         (d < dims \<and> coeff_at h1 l1 row d = Inr 0 \<and>
          swap_scan h1 l1 row d [row + 1..<rows - 1] False = Inr (h2, swap) \<longrightarrow>
            tri_measure h2 l1 dims row (if swap then d else d + 1) < tri_measure h1 l1 dims row d)"
proof -
  from init_rows [OF assms] obtain ps where ps: "rows_of h s = Inr ps"
    "list_all (\<lambda>p. plane_dimension p = dimension s) ps"
    by blast
  from compute_triangular_form_ok [OF ps] have a: "\<exists>r. compute_triangular_form h s = Inr r"
    by blast
  from compute_rref_form_ok [OF ps] have b: "\<exists>r. compute_rref_form h s = Inr r"
    by blast
  have c: "tri_measure h2 l1 dims row (if swap then d else d + 1) < tri_measure h1 l1 dims row d"
    if d: "d < dims" and c0: "coeff_at h1 l1 row d = Inr 0"
      and sc: "swap_scan h1 l1 row d [row + 1..<rows - 1] False = Inr (h2, swap)"
  proof (cases swap)
    case True
    with swap_scan_positive [OF sc] obtain c where "coeff_at h2 l1 row d = Inr c" "c > 0"
      by blast
    with True c0 d show ?thesis by (simp add: tri_measure_def)
  next
    case False
    with c0 d show ?thesis by (auto simp: tri_measure_def split: sum.splits)
  qed
  from a b c show ?thesis by blast
qed

theorem compute_forms_return_witness:
  "init [PlaneObj \<lparr>normal_vector = [0], constant_term = 2\<rparr>,
         PlaneObj \<lparr>normal_vector = [1], constant_term = 1\<rparr>,
         PlaneObj \<lparr>normal_vector = [3], constant_term = 0\<rparr>,
         ListObj [0, 1, 2]] 3 = Inr \<lparr>planes = 3, dimension = 1\<rparr> \<and>
   (\<exists>r. compute_triangular_form
       [PlaneObj \<lparr>normal_vector = [0], constant_term = 2\<rparr>,
        PlaneObj \<lparr>normal_vector = [1], constant_term = 1\<rparr>,
        PlaneObj \<lparr>normal_vector = [3], constant_term = 0\<rparr>,
        ListObj [0, 1, 2]] \<lparr>planes = 3, dimension = 1\<rparr> = Inr r) \<and>
   (\<exists>r. compute_rref_form
       [PlaneObj \<lparr>normal_vector = [0], constant_term = 2\<rparr>,
        PlaneObj \<lparr>normal_vector = [1], constant_term = 1\<rparr>,
        PlaneObj \<lparr>normal_vector = [3], constant_term = 0\<rparr>,
        ListObj [0, 1, 2]] \<lparr>planes = 3, dimension = 1\<rparr> = Inr r) \<and>
   tri_measure [PlaneObj \<lparr>normal_vector = [0], constant_term = 2\<rparr>,
        PlaneObj \<lparr>normal_vector = [1], constant_term = 1\<rparr>,
        PlaneObj \<lparr>normal_vector = [3], constant_term = 0\<rparr>,
        ListObj [1, 0, 2]] 3 1 0 0
     < tri_measure [PlaneObj \<lparr>normal_vector = [0], constant_term = 2\<rparr>,
        PlaneObj \<lparr>normal_vector = [1], constant_term = 1\<rparr>,
        PlaneObj \<lparr>normal_vector = [3], constant_term = 0\<rparr>,
        ListObj [0, 1, 2]] 3 1 0 0"
proof -
  let ?p = "PlaneObj \<lparr>normal_vector = [0], constant_term = 2\<rparr>"
  let ?q = "PlaneObj \<lparr>normal_vector = [1], constant_term = 1\<rparr>"
  let ?r = "PlaneObj \<lparr>normal_vector = [3], constant_term = 0\<rparr>"
  let ?h = "[?p, ?q, ?r, ListObj [0, 1, 2]]"
  let ?h2 = "[?p, ?q, ?r, ListObj [1, 0, 2]]"
  have i: "init ?h 3 = Inr \<lparr>planes = 3, dimension = 1\<rparr>"
    by (simp add: init_def lookup_list_def lookup_plane_def err_bind_def plane_dimension_def)
  have c: "coeff_at ?h 3 0 0 = Inr 0" by code_simp
  have s: "swap_scan ?h 3 0 0 [0 + 1..<3 - 1] False = Inr (?h2, True)" by code_simp
  from compute_forms_return [OF i, of 0 1 ?h 3 0 3 ?h2 True] c s i show ?thesis by simp
qed

section \<open>Where the code departs from the claims\<close>

definition result_rows :: "error + heap \<times> linear_system \<Rightarrow> error + plane list" where
  "result_rows r = err_bind r (\<lambda>(h, s). rows_of h s)"

definition result_indexes ::
  "string \<Rightarrow> error + heap \<times> linear_system \<Rightarrow> error + int list" where
  "result_indexes msg r =
     err_bind r (\<lambda>(h, s). get_first_nonzero_indexes msg (first_nonzero_index msg) h s)"

text \<open>
  Claim C1 fails on the code. The system \<open>2x = 2\<close>, \<open>y = 1\<close> is accepted by the
  constructor, and \<open>compute_rref_form\<close> returns it with the first row as it was: its
  leading coefficient is 2. The cursor of the normalisation pass is not set back to
  \<open>dims\<close> after a row, so only the last row is visited.
\<close>

theorem rref_first_row_not_normalised:
  "init [PlaneObj \<lparr>normal_vector = [2, 0], constant_term = 2\<rparr>,
         PlaneObj \<lparr>normal_vector = [0, 1], constant_term = 1\<rparr>,
         ListObj [0, 1]] 2 = Inr \<lparr>planes = 2, dimension = 2\<rparr> \<and>
   result_rows (compute_rref_form
     [PlaneObj \<lparr>normal_vector = [2, 0], constant_term = 2\<rparr>,
      PlaneObj \<lparr>normal_vector = [0, 1], constant_term = 1\<rparr>,
      ListObj [0, 1]] \<lparr>planes = 2, dimension = 2\<rparr>) =
   Inr [\<lparr>normal_vector = [2, 0], constant_term = 2\<rparr>,
        \<lparr>normal_vector = [0, 1], constant_term = 1\<rparr>]"
  by code_simp

text \<open>
  Claim C2 fails on the code. For the system \<open>y = 2\<close>, \<open>x = 1\<close> the triangular form is
  the system itself, and the first nonzero coefficients of its rows are at the positions
  1 and 0: the search for a row to swap in runs over \<open>range(row + 1, rows - 1)\<close>, which
  is empty for two rows.
\<close>

theorem triangular_pivots_out_of_order:
  "init [PlaneObj \<lparr>normal_vector = [0, 1], constant_term = 2\<rparr>,
         PlaneObj \<lparr>normal_vector = [1, 0], constant_term = 1\<rparr>,
         ListObj [0, 1]] 2 = Inr \<lparr>planes = 2, dimension = 2\<rparr> \<and>
   result_rows (compute_triangular_form
     [PlaneObj \<lparr>normal_vector = [0, 1], constant_term = 2\<rparr>,
      PlaneObj \<lparr>normal_vector = [1, 0], constant_term = 1\<rparr>,
      ListObj [0, 1]] \<lparr>planes = 2, dimension = 2\<rparr>) =
   Inr [\<lparr>normal_vector = [0, 1], constant_term = 2\<rparr>,
        \<lparr>normal_vector = [1, 0], constant_term = 1\<rparr>] \<and>
   result_indexes ''none'' (compute_triangular_form
     [PlaneObj \<lparr>normal_vector = [0, 1], constant_term = 2\<rparr>,
      PlaneObj \<lparr>normal_vector = [1, 0], constant_term = 1\<rparr>,
      ListObj [0, 1]] \<lparr>planes = 2, dimension = 2\<rparr>) = Inr [1, 0]"
  by code_simp

text \<open>
  Claim C3 fails on the code. In the system \<open>0x = 0\<close>, \<open>-x = 1\<close>, \<open>x = 1\<close> the
  coefficient at row 0 and cursor 0 is zero, and row 1, which the search visits, has the
  nonzero coefficient \<open>-1\<close> there. The search tests \<open>> 0\<close>: it swaps nothing and reports
  no swap, and the cursor loop for row 0 ends with the cursor advanced and the store
  unchanged; \<open>compute_triangular_form\<close> returns the three rows as they were.
\<close>

theorem swap_scan_skips_negative:
  "init [PlaneObj \<lparr>normal_vector = [0], constant_term = 0\<rparr>,
      PlaneObj \<lparr>normal_vector = [- 1], constant_term = 1\<rparr>,
      PlaneObj \<lparr>normal_vector = [1], constant_term = 1\<rparr>,
      ListObj [0, 1, 2]] 3 = Inr \<lparr>planes = 3, dimension = 1\<rparr> \<and>
   coeff_at [PlaneObj \<lparr>normal_vector = [0], constant_term = 0\<rparr>,
      PlaneObj \<lparr>normal_vector = [- 1], constant_term = 1\<rparr>,
      PlaneObj \<lparr>normal_vector = [1], constant_term = 1\<rparr>,
      ListObj [0, 1, 2]] 3 0 0 = Inr 0 \<and>
   coeff_at [PlaneObj \<lparr>normal_vector = [0], constant_term = 0\<rparr>,
      PlaneObj \<lparr>normal_vector = [- 1], constant_term = 1\<rparr>,
      PlaneObj \<lparr>normal_vector = [1], constant_term = 1\<rparr>,
      ListObj [0, 1, 2]] 3 1 0 = Inr (- 1) \<and>
   swap_scan [PlaneObj \<lparr>normal_vector = [0], constant_term = 0\<rparr>,
      PlaneObj \<lparr>normal_vector = [- 1], constant_term = 1\<rparr>,
      PlaneObj \<lparr>normal_vector = [1], constant_term = 1\<rparr>,
      ListObj [0, 1, 2]] 3 0 0 [0 + 1..<3 - 1] False =
    Inr ([PlaneObj \<lparr>normal_vector = [0], constant_term = 0\<rparr>,
      PlaneObj \<lparr>normal_vector = [- 1], constant_term = 1\<rparr>,
      PlaneObj \<lparr>normal_vector = [1], constant_term = 1\<rparr>,
      ListObj [0, 1, 2]], False) \<and>
   tri_while [PlaneObj \<lparr>normal_vector = [0], constant_term = 0\<rparr>,
      PlaneObj \<lparr>normal_vector = [- 1], constant_term = 1\<rparr>,
      PlaneObj \<lparr>normal_vector = [1], constant_term = 1\<rparr>,
      ListObj [0, 1, 2]] 3 3 1 0 0 =
    Inr ([PlaneObj \<lparr>normal_vector = [0], constant_term = 0\<rparr>,
      PlaneObj \<lparr>normal_vector = [- 1], constant_term = 1\<rparr>,
      PlaneObj \<lparr>normal_vector = [1], constant_term = 1\<rparr>,
      ListObj [0, 1, 2]], 1) \<and>
   result_rows (compute_triangular_form
     [PlaneObj \<lparr>normal_vector = [0], constant_term = 0\<rparr>,
      PlaneObj \<lparr>normal_vector = [- 1], constant_term = 1\<rparr>,
      PlaneObj \<lparr>normal_vector = [1], constant_term = 1\<rparr>,
      ListObj [0, 1, 2]] \<lparr>planes = 3, dimension = 1\<rparr>) =
    Inr [\<lparr>normal_vector = [0], constant_term = 0\<rparr>,
         \<lparr>normal_vector = [- 1], constant_term = 1\<rparr>,
         \<lparr>normal_vector = [1], constant_term = 1\<rparr>]"
  by code_simp

section \<open>Reduced systems in exact arithmetic\<close>

text \<open>
  This section is about the rational model only. It shows that the control flow of
  \<open>compute_rref_form\<close> gives a reduced system back when no operation rounds: what the
  backward pass adds to a row it takes out again. With rounded numbers the two steps need
  not cancel, so nothing here bounds what the program returns in floating point, and
  claim C8, which speaks of a floating tolerance, is not stated in this theory.
\<close>

subsection \<open>What the reduction loops do to the rows\<close>

text \<open>
  The loops of \<open>compute_rref_form\<close> after the copies, as functions on the rows of the
  working copy: \<open>cancel_rows\<close> for \<open>cancel_under\<close>, \<open>back_while_rows\<close> and
  \<open>back_rows_rows\<close> for the backward pass, \<open>norm_while_rows\<close> and \<open>norm_rows_rows\<close>
  for the normalisation pass. The lemmas after them show that the loops over the store
  compute exactly these rows when all rows have the dimension of the system.
\<close>

fun cancel_rows :: "plane list \<Rightarrow> nat \<Rightarrow> nat \<Rightarrow> rat \<Rightarrow> nat list \<Rightarrow> plane list" where
  "cancel_rows ps row d c [] = ps"
| "cancel_rows ps row d c (i # rest) =
     (let u = ps ! (i + 1); under_coeff = py_round3 (normal_vector u ! d)
      in if under_coeff \<noteq> 0
         then cancel_rows
           (ps[row := (if c < 0 then plane_add (ps ! row) (plane_mul u (\<bar>c\<bar> / under_coeff))
                       else plane_sub (ps ! row) (plane_mul u (\<bar>c\<bar> / under_coeff)))])
           row d c rest
         else cancel_rows ps row d c rest)"

function back_while_rows :: "plane list \<Rightarrow> nat \<Rightarrow> nat \<Rightarrow> int \<Rightarrow> plane list" where
  "back_while_rows ps rows row d =
     (if d > - 1
      then (let c = normal_vector (ps ! row) ! nat d
            in back_while_rows
                 (if c \<noteq> 0 then cancel_rows ps row (nat d) c [row..<rows - 1] else ps)
                 rows row (d - 1))
      else ps)"
  by pat_completeness auto
termination
  by (relation "measure (\<lambda>(ps, rows, row, d). nat (d + 1))") auto

declare back_while_rows.simps [simp del]

fun back_rows_rows :: "plane list \<Rightarrow> nat \<Rightarrow> int \<Rightarrow> int \<Rightarrow> nat list \<Rightarrow> plane list" where
  "back_rows_rows ps rows dims d [] = ps"
| "back_rows_rows ps rows dims d (row # rest) =
     back_rows_rows (back_while_rows ps rows row d) rows dims dims rest"

function norm_while_rows :: "plane list \<Rightarrow> nat \<Rightarrow> int \<Rightarrow> plane list" where
  "norm_while_rows ps row d =
     (if d > - 1
      then (let c = normal_vector (ps ! row) ! nat d
            in norm_while_rows
                 (if c \<noteq> 0 then ps[row := plane_mul (ps ! row) (1 / c)] else ps)
                 row (d - 1))
      else ps)"
  by pat_completeness auto
termination
  by (relation "measure (\<lambda>(ps, row, d). nat (d + 1))") auto

declare norm_while_rows.simps [simp del]

fun norm_rows_rows :: "plane list \<Rightarrow> int \<Rightarrow> nat list \<Rightarrow> plane list" where
  "norm_rows_rows ps d [] = ps"
| "norm_rows_rows ps d (row # rest) = norm_rows_rows (norm_while_rows ps row d) (min d (- 1)) rest"

definition same_dimension :: "nat \<Rightarrow> plane list \<Rightarrow> bool" where
  "same_dimension dims ps = list_all (\<lambda>p. plane_dimension p = dims) ps"

lemma same_dimension_nth:
  "same_dimension dims ps \<Longrightarrow> i < length ps \<Longrightarrow> length (normal_vector (ps ! i)) = dims"
  by (simp add: same_dimension_def list_all_length plane_dimension_def)

lemma same_dimension_update:
  "same_dimension dims ps \<Longrightarrow> plane_dimension p = dims \<Longrightarrow> same_dimension dims (ps[i := p])"
  by (auto simp: same_dimension_def list_all_iff dest!: set_update_subset_insert [THEN subsetD])

lemma cancel_rows_length [simp]: "length (cancel_rows ps row d c ns) = length ps"
  by (induction ns arbitrary: ps) (simp_all add: Let_def)

lemma cancel_rows_dimension:
  assumes "same_dimension dims ps" and "row < length ps" and "\<forall>i\<in>set ns. i + 1 < length ps"
  shows "same_dimension dims (cancel_rows ps row d c ns)"
  using assms
proof (induction ns arbitrary: ps)
  case Nil
  then show ?case by simp
next
  case (Cons i ns)
  let ?u = "ps ! (i + 1)" and ?p = "ps ! row"
  from Cons.prems have "plane_dimension ?u = dims" "plane_dimension ?p = dims"
    by (simp_all add: same_dimension_def list_all_length)
  then have "same_dimension dims (ps[row := plane_add ?p (plane_mul ?u k)])"
    and "same_dimension dims (ps[row := plane_sub ?p (plane_mul ?u k)])" for k
    using Cons.prems(1) by (simp_all add: same_dimension_update)
  with Cons show ?case by (simp add: Let_def)
qed

lemma cancel_under_rows:
  assumes "copy_rows n0 h l ps" and "same_dimension dims ps" and "row < length ps"
    and "d < dims" and "\<forall>i\<in>set ns. i + 1 < length ps"
  shows "\<exists>h'. cancel_under h l row d c ns = Inr h' \<and>
           copy_rows n0 h' l (cancel_rows ps row d c ns)"
  using assms(1,2,3,5)
proof (induction ns arbitrary: h ps)
  case Nil
  then show ?case by simp
next
  case (Cons i ns)
  from Cons.prems(4) have i: "i + 1 < length ps" and ns: "\<forall>i\<in>set ns. i + 1 < length ps"
    by simp_all
  let ?u = "ps ! (i + 1)" and ?p = "ps ! row"
  let ?uc = "py_round3 (normal_vector ?u ! d)"
  have du: "d < length (normal_vector ?u)"
    using same_dimension_nth [OF Cons.prems(2) i] assms(4) by simp
  have cu: "coeff_at h l (i + 1) d = Inr (normal_vector ?u ! d)"
    using i du by (simp add: copy_rows_coeff [OF Cons.prems(1)] plane_getitem_def)
  show ?case
  proof (cases "?uc \<noteq> 0")
    case False
    with Cons.IH [OF Cons.prems(1,2,3) ns] cu show ?thesis
      by (simp add: err_bind_def Let_def)
  next
    case True
    let ?new = "if c < 0 then plane_add ?p (plane_mul ?u (\<bar>c\<bar> / ?uc))
                else plane_sub ?p (plane_mul ?u (\<bar>c\<bar> / ?uc))"
    from Cons.prems(2) i Cons.prems(3) have "plane_dimension ?u = dims" "plane_dimension ?p = dims"
      by (simp_all add: same_dimension_def list_all_length)
    then have "plane_dimension ?new = dims" by simp
    with Cons.prems(2) have dim': "same_dimension dims (ps[row := ?new])"
      by (rule same_dimension_update)
    from copy_rows_store [OF Cons.prems(1) Cons.prems(3), of ?new] obtain h2
      where h2: "list_setitem (h @ [PlaneObj ?new]) l row (length h) = Inr h2"
        "copy_rows n0 h2 l (ps[row := ?new])"
      by blast
    have ns': "\<forall>i\<in>set ns. i + 1 < length (ps[row := ?new])" using ns by simp
    have row': "row < length (ps[row := ?new])" using Cons.prems(3) by simp
    from Cons.IH [OF h2(2) dim' row' ns'] obtain h'
      where h': "cancel_under h2 l row d c ns = Inr h'"
        "copy_rows n0 h' l (cancel_rows (ps[row := ?new]) row d c ns)"
      by blast
    have step: "cancel_under h l row d c (i # ns) = cancel_under h2 l row d c ns"
      using cu True h2(1) i Cons.prems(3)
      by (cases "c < 0")
        (simp_all add: err_bind_def Let_def py_div_def alloc_def
          copy_rows_row_plane [OF Cons.prems(1)])
    have rows: "cancel_rows ps row d c (i # ns) = cancel_rows (ps[row := ?new]) row d c ns"
      using True by (simp add: Let_def)
    from h' show ?thesis unfolding step rows by blast
  qed
qed

lemma back_while_sim:
  assumes "copy_rows n0 h l ps" and "same_dimension dims ps" and "length ps = rows"
    and "row < rows" and "d < int dims"
  shows "\<exists>h'. back_while h l rows row d = Inr (h', min d (- 1)) \<and>
           copy_rows n0 h' l (back_while_rows ps rows row d) \<and>
           same_dimension dims (back_while_rows ps rows row d) \<and>
           length (back_while_rows ps rows row d) = rows"
  using assms
proof (induction "nat (d + 1)" arbitrary: d h ps)
  case 0
  then have "\<not> d > - 1" by simp
  with 0 show ?case
    by (simp add: back_while.simps [of h l rows row d] back_while_rows.simps [of ps rows row d])
next
  case (Suc n)
  then have d: "d > - 1" and n: "n = nat (d - 1 + 1)" by simp_all
  from Suc.prems have row: "row < length ps" by simp
  let ?c = "normal_vector (ps ! row) ! nat d"
  have nd: "nat d < dims" using d Suc.prems(5) by simp
  have c: "coeff_at h l row (nat d) = Inr ?c"
    using row nd same_dimension_nth [OF Suc.prems(2) row]
    by (simp add: copy_rows_coeff [OF Suc.prems(1)] plane_getitem_def)
  let ?ps1 = "if ?c \<noteq> 0 then cancel_rows ps row (nat d) ?c [row..<rows - 1] else ps"
  have under: "\<forall>i\<in>set [row..<rows - 1]. i + 1 < length ps" using Suc.prems(3) by auto
  have "\<exists>h1. (if ?c \<noteq> 0 then cancel_under h l row (nat d) ?c [row..<rows - 1] else Inr h) = Inr h1
          \<and> copy_rows n0 h1 l ?ps1"
    using cancel_under_rows [OF Suc.prems(1,2) row nd under, of ?c] Suc.prems(1) by simp
  then obtain h1 where h1:
    "(if ?c \<noteq> 0 then cancel_under h l row (nat d) ?c [row..<rows - 1] else Inr h) = Inr h1"
    "copy_rows n0 h1 l ?ps1"
    by blast
  have dim1: "same_dimension dims ?ps1"
    using cancel_rows_dimension [OF Suc.prems(2) row under] Suc.prems(2) by simp
  have len1: "length ?ps1 = rows" using Suc.prems(3) by simp
  have d1: "d - 1 < int dims" using Suc.prems(5) by simp
  from Suc.hyps(1) [OF n h1(2) dim1 len1 Suc.prems(4) d1] obtain h'
    where h': "back_while h1 l rows row (d - 1) = Inr (h', min (d - 1) (- 1))"
      "copy_rows n0 h' l (back_while_rows ?ps1 rows row (d - 1))"
      "same_dimension dims (back_while_rows ?ps1 rows row (d - 1))"
      "length (back_while_rows ?ps1 rows row (d - 1)) = rows"
    by blast
  have "back_while h l rows row d = back_while h1 l rows row (d - 1)"
    using d c h1(1) by (simp add: back_while.simps [of h l rows row d] err_bind_def)
  moreover have "back_while_rows ps rows row d = back_while_rows ?ps1 rows row (d - 1)"
    using d by (simp add: back_while_rows.simps [of ps rows row d] Let_def)
  moreover have "min (d - 1) (- 1) = min d (- 1)" using d by simp
  ultimately show ?case using h' by simp
qed

lemma back_rows_sim:
  assumes "copy_rows n0 h l ps" and "same_dimension dims ps" and "length ps = rows"
    and "\<forall>r\<in>set rs. r < rows" and "d < int dims" and "ds < int dims" and "- 1 \<le> ds"
  shows "\<exists>h'. back_rows h l rows ds d rs = Inr (h', if rs = [] then d else ds) \<and>
           copy_rows n0 h' l (back_rows_rows ps rows ds d rs) \<and>
           same_dimension dims (back_rows_rows ps rows ds d rs) \<and>
           length (back_rows_rows ps rows ds d rs) = rows"
  using assms(1,2,3,4,5)
proof (induction rs arbitrary: h ps d)
  case Nil
  then show ?case by simp
next
  case (Cons r rs)
  from Cons.prems(4) have r: "r < rows" and rs: "\<forall>r\<in>set rs. r < rows" by simp_all
  from back_while_sim [OF Cons.prems(1,2,3) r Cons.prems(5)] obtain h1
    where h1: "back_while h l rows r d = Inr (h1, min d (- 1))"
      "copy_rows n0 h1 l (back_while_rows ps rows r d)"
      "same_dimension dims (back_while_rows ps rows r d)"
      "length (back_while_rows ps rows r d) = rows"
    by blast
  from Cons.IH [OF h1(2,3,4) rs assms(6)] obtain h'
    where "back_rows h1 l rows ds ds rs = Inr (h', if rs = [] then ds else ds)"
      "copy_rows n0 h' l (back_rows_rows (back_while_rows ps rows r d) rows ds ds rs)"
      "same_dimension dims (back_rows_rows (back_while_rows ps rows r d) rows ds ds rs)"
      "length (back_rows_rows (back_while_rows ps rows r d) rows ds ds rs) = rows"
    by blast
  with h1(1) show ?case by (simp add: err_bind_def)
qed

lemma norm_while_sim:
  assumes "copy_rows n0 h l ps" and "same_dimension dims ps"
    and "row < length ps" and "d < int dims"
  shows "\<exists>h'. norm_while h l row d = Inr (h', min d (- 1)) \<and>
           copy_rows n0 h' l (norm_while_rows ps row d) \<and>
           same_dimension dims (norm_while_rows ps row d) \<and>
           length (norm_while_rows ps row d) = length ps"
  using assms
proof (induction "nat (d + 1)" arbitrary: d h ps)
  case 0
  then have "\<not> d > - 1" by simp
  with 0 show ?case
    by (simp add: norm_while.simps [of h l row d] norm_while_rows.simps [of ps row d])
next
  case (Suc n)
  then have d: "d > - 1" and n: "n = nat (d - 1 + 1)" by simp_all
  note row = Suc.prems(3)
  let ?c = "normal_vector (ps ! row) ! nat d"
  have nd: "nat d < dims" using d Suc.prems(4) by simp
  have c: "coeff_at h l row (nat d) = Inr ?c"
    using row nd same_dimension_nth [OF Suc.prems(2) row]
    by (simp add: copy_rows_coeff [OF Suc.prems(1)] plane_getitem_def)
  let ?new = "plane_mul (ps ! row) (1 / ?c)"
  let ?ps1 = "if ?c \<noteq> 0 then ps[row := ?new] else ps"
  let ?body = "if ?c \<noteq> 0
               then err_bind (py_div 1 ?c)
                 (\<lambda>sub_factor. err_bind (row_plane h l row)
                    (\<lambda>p. let (h1, a) = alloc h (PlaneObj (plane_mul p sub_factor))
                         in list_setitem h1 l row a))
               else Inr h"
  have "\<exists>h1. ?body = Inr h1 \<and> copy_rows n0 h1 l ?ps1"
    using copy_rows_store [OF Suc.prems(1) row, of ?new] Suc.prems(1) row
    by (auto simp: err_bind_def py_div_def alloc_def copy_rows_row_plane [OF Suc.prems(1)])
  then obtain h1 where h1: "?body = Inr h1" "copy_rows n0 h1 l ?ps1" by blast
  have "plane_dimension ?new = dims"
    using Suc.prems(2) row by (simp add: same_dimension_def list_all_length)
  then have dim1: "same_dimension dims ?ps1"
    using Suc.prems(2) by (simp add: same_dimension_update)
  have row1: "row < length ?ps1" using row by simp
  have d1: "d - 1 < int dims" using Suc.prems(4) by simp
  from Suc.hyps(1) [OF n h1(2) dim1 row1 d1] obtain h'
    where h': "norm_while h1 l row (d - 1) = Inr (h', min (d - 1) (- 1))"
      "copy_rows n0 h' l (norm_while_rows ?ps1 row (d - 1))"
      "same_dimension dims (norm_while_rows ?ps1 row (d - 1))"
      "length (norm_while_rows ?ps1 row (d - 1)) = length ?ps1"
    by blast
  have "norm_while h l row d = norm_while h1 l row (d - 1)"
    using d c h1(1) by (simp add: norm_while.simps [of h l row d] err_bind_def)
  moreover have "norm_while_rows ps row d = norm_while_rows ?ps1 row (d - 1)"
    using d by (simp add: norm_while_rows.simps [of ps row d] Let_def)
  moreover have "min (d - 1) (- 1) = min d (- 1)" using d by simp
  moreover have "length ?ps1 = length ps" by simp
  ultimately show ?case using h' by simp
qed

lemma norm_rows_sim:
  assumes "copy_rows n0 h l ps" and "same_dimension dims ps"
    and "\<forall>r\<in>set rs. r < length ps" and "d < int dims"
  shows "\<exists>h'. norm_rows h l d rs = Inr h' \<and>
           copy_rows n0 h' l (norm_rows_rows ps d rs)"
  using assms
proof (induction rs arbitrary: h ps d)
  case Nil
  then show ?case by simp
next
  case (Cons r rs)
  from Cons.prems(3) have r: "r < length ps" and rs: "\<forall>r\<in>set rs. r < length ps" by simp_all
  from norm_while_sim [OF Cons.prems(1,2) r Cons.prems(4)] obtain h1
    where h1: "norm_while h l r d = Inr (h1, min d (- 1))"
      "copy_rows n0 h1 l (norm_while_rows ps r d)"
      "same_dimension dims (norm_while_rows ps r d)"
      "length (norm_while_rows ps r d) = length ps"
    by blast
  have rs1: "\<forall>k\<in>set rs. k < length (norm_while_rows ps r d)" using rs h1(4) by simp
  have d1: "min d (- 1) < int dims" by simp
  from Cons.IH [OF h1(2,3) rs1 d1] h1(1) show ?case by (simp add: err_bind_def)
qed

subsection \<open>Reduced row echelon form\<close>

text \<open>
  \<open>lead p\<close> is the position of the first nonzero coefficient of \<open>p\<close>, or the dimension
  for a row of zeros. A list of rows is in reduced row echelon form when rows of zeros come
  last, every other row has the coefficient 1 at its lead, the leads increase strictly
  from row to row, and the column of a lead is zero in every other row.
\<close>

definition lead :: "plane \<Rightarrow> nat" where
  "lead p = length (takeWhile (\<lambda>x. x = 0) (normal_vector p))"

definition zero_row :: "plane \<Rightarrow> bool" where
  "zero_row p = list_all (\<lambda>x. x = 0) (normal_vector p)"

fun rref :: "plane list \<Rightarrow> bool" where
  "rref [] = True"
| "rref (p # ps) =
     (rref ps \<and>
      (if zero_row p then list_all zero_row ps
       else normal_vector p ! lead p = 1 \<and>
            list_all (\<lambda>q. normal_vector q ! lead p = 0 \<and>
                          (zero_row q \<or> (lead p < lead q \<and> normal_vector p ! lead q = 0))) ps))"

lemma lead_le: "lead p \<le> length (normal_vector p)"
  by (simp add: lead_def length_takeWhile_le)

lemma lead_zero: "k < lead p \<Longrightarrow> normal_vector p ! k = 0"
  unfolding lead_def
  by (metis (mono_tags, lifting) nth_mem set_takeWhileD takeWhile_nth)

lemma length_takeWhile_all: "length (takeWhile P xs) = length xs \<longleftrightarrow> list_all P xs"
  by (induction xs) auto

lemma zero_row_lead: "zero_row p \<longleftrightarrow> lead p = length (normal_vector p)"
  by (simp add: zero_row_def lead_def length_takeWhile_all)

lemma zero_row_nth: "zero_row p \<Longrightarrow> k < length (normal_vector p) \<Longrightarrow> normal_vector p ! k = 0"
  by (simp add: zero_row_def list_all_length)

lemma nonzero_lead:
  assumes "\<not> zero_row p"
  shows "lead p < length (normal_vector p)" and "normal_vector p ! lead p \<noteq> 0"
proof -
  from assms lead_le [of p] show l: "lead p < length (normal_vector p)"
    by (auto simp: zero_row_lead)
  then show "normal_vector p ! lead p \<noteq> 0"
    unfolding lead_def by (rule nth_length_takeWhile)
qed

lemma rref_nth:
  assumes "rref ps" and "i < j" and "j < length ps"
  shows "if zero_row (ps ! i) then zero_row (ps ! j)
         else normal_vector (ps ! j) ! lead (ps ! i) = 0 \<and>
              (zero_row (ps ! j) \<or>
               (lead (ps ! i) < lead (ps ! j) \<and> normal_vector (ps ! i) ! lead (ps ! j) = 0))"
  using assms
proof (induction ps arbitrary: i j)
  case Nil
  then show ?case by simp
next
  case (Cons p ps)
  from Cons.prems(2) obtain j' where j: "j = Suc j'" by (cases j) auto
  show ?case
  proof (cases i)
    case 0
    with Cons.prems j show ?thesis by (auto simp: list_all_length split: if_splits)
  next
    case (Suc i')
    with Cons.prems j Cons.IH [of i' j'] show ?thesis by simp
  qed
qed

lemma rref_pivot:
  assumes "rref ps" and "i < length ps" and "\<not> zero_row (ps ! i)"
  shows "normal_vector (ps ! i) ! lead (ps ! i) = 1"
  using assms
proof (induction ps arbitrary: i)
  case Nil
  then show ?case by simp
next
  case (Cons p ps)
  then show ?case by (cases i) (auto split: if_splits)
qed

lemma rref_below_zero:
  assumes "rref ps" and "same_dimension dims ps" and "i < j" and "j < length ps"
    and "k \<le> lead (ps ! i)" and "k < dims"
  shows "normal_vector (ps ! j) ! k = 0"
proof (cases "zero_row (ps ! j)")
  case True
  with same_dimension_nth [OF assms(2,4)] assms(6) show ?thesis by (simp add: zero_row_nth)
next
  case False
  with rref_nth [OF assms(1,3,4)] have "lead (ps ! i) < lead (ps ! j)"
    by (auto split: if_splits)
  with assms(5) show ?thesis by (simp add: lead_zero)
qed

lemma rref_lead_mono:
  assumes "rref ps" and "same_dimension dims ps" and "i < j" and "j < length ps"
  shows "lead (ps ! i) \<le> lead (ps ! j)"
proof (cases "zero_row (ps ! j)")
  case True
  from assms(3,4) have i: "i < length ps" by simp
  from True have "lead (ps ! j) = dims"
    using same_dimension_nth [OF assms(2,4)] by (simp add: zero_row_lead)
  with lead_le [of "ps ! i"] same_dimension_nth [OF assms(2) i] show ?thesis by simp
next
  case False
  with rref_nth [OF assms(1,3,4)] show ?thesis by (auto split: if_splits)
qed

lemma swap_scan_skip:
  assumes "copy_rows n0 h l ps"
    and "\<forall>n\<in>set ns. n < length ps \<and> d < length (normal_vector (ps ! n)) \<and>
           normal_vector (ps ! n) ! d \<le> 0"
  shows "swap_scan h l row d ns sw = Inr (h, sw)"
  using assms(2)
  by (induction ns)
    (simp_all add: copy_rows_coeff [OF assms(1)] plane_getitem_def err_bind_def)

lemma clear_below_skip:
  assumes "copy_rows n0 h l ps"
    and "\<forall>n\<in>set ns. n < length ps \<and> d < length (normal_vector (ps ! n)) \<and>
           normal_vector (ps ! n) ! d = 0"
  shows "clear_below h l row d c ns = Inr h"
  using assms(2)
  by (induction ns)
    (simp_all add: copy_rows_coeff [OF assms(1)] plane_getitem_def err_bind_def)

lemma tri_while_rref:
  assumes "copy_rows n0 h l ps" and "same_dimension dims ps" and "rref ps"
    and "row < length ps" and "d \<le> lead (ps ! row)"
  shows "tri_while h l (length ps) dims row d = Inr (h, lead (ps ! row))"
  using assms(5)
proof (induction "lead (ps ! row) - d" arbitrary: d)
  case 0
  then have d: "d = lead (ps ! row)" by simp
  note len = same_dimension_nth [OF assms(2,4)]
  show ?case
  proof (cases "d < dims")
    case False
    then have "tri_while h l (length ps) dims row d = Inr (h, d)"
      by (simp add: tri_while.simps [of h l "length ps" dims row d])
    with d show ?thesis by simp
  next
    case True
    with d len have nz: "\<not> zero_row (ps ! row)" by (simp add: zero_row_lead)
    from rref_pivot [OF assms(3,4) nz] d have one: "normal_vector (ps ! row) ! d = 1" by simp
    have c: "coeff_at h l row d = Inr 1"
      using assms(4) True len one by (simp add: copy_rows_coeff [OF assms(1)] plane_getitem_def)
    have "\<forall>n\<in>set [row + 1..<length ps]. n < length ps \<and> d < length (normal_vector (ps ! n)) \<and>
           normal_vector (ps ! n) ! d = 0"
    proof
      fix n assume "n \<in> set [row + 1..<length ps]"
      then have n: "row < n" "n < length ps" by simp_all
      from rref_below_zero [OF assms(3,2) n, of d] d True
        same_dimension_nth [OF assms(2) n(2)] n
      show "n < length ps \<and> d < length (normal_vector (ps ! n)) \<and> normal_vector (ps ! n) ! d = 0"
        by simp
    qed
    from clear_below_skip [OF assms(1) this] True c
    have "tri_while h l (length ps) dims row d = Inr (h, d)"
      by (simp add: tri_while.simps [of h l "length ps" dims row d] err_bind_def)
    with d show ?thesis by simp
  qed
next
  case (Suc m)
  then have d: "d < lead (ps ! row)" by simp
  note len = same_dimension_nth [OF assms(2,4)]
  from d lead_le [of "ps ! row"] len have dd: "d < dims" by simp
  have c: "coeff_at h l row d = Inr 0"
    using assms(4) dd len lead_zero [OF d]
    by (simp add: copy_rows_coeff [OF assms(1)] plane_getitem_def)
  have "\<forall>n\<in>set [row + 1..<length ps - 1]. n < length ps \<and>
          d < length (normal_vector (ps ! n)) \<and> normal_vector (ps ! n) ! d \<le> 0"
  proof
    fix n assume "n \<in> set [row + 1..<length ps - 1]"
    then have n: "row < n" "n < length ps" by auto
    from rref_below_zero [OF assms(3,2) n, of d] d dd same_dimension_nth [OF assms(2) n(2)] n
    show "n < length ps \<and> d < length (normal_vector (ps ! n)) \<and> normal_vector (ps ! n) ! d \<le> 0"
      by simp
  qed
  from swap_scan_skip [OF assms(1) this]
  have sc: "swap_scan h l row d [row + 1..<length ps - 1] False = Inr (h, False)" .
  from Suc.hyps(2) d have "m = lead (ps ! row) - (d + 1)" "d + 1 \<le> lead (ps ! row)" by simp_all
  from Suc.hyps(1) [OF this] c sc dd show ?case
    by (simp add: tri_while.simps [of h l "length ps" dims row d] err_bind_def)
qed

lemma tri_rows_rref:
  assumes "copy_rows n0 h l ps" and "same_dimension dims ps" and "rref ps"
    and "m \<le> length ps" and "r < m \<longrightarrow> d \<le> lead (ps ! r)"
  shows "tri_rows h l (length ps) dims d [r..<m] = Inr h"
  using assms(5)
proof (induction "m - r" arbitrary: r d)
  case 0
  then show ?case by simp
next
  case (Suc k)
  then have r: "r < m" by simp
  with assms(4) have rl: "r < length ps" by simp
  from Suc.prems r have d: "d \<le> lead (ps ! r)" by simp
  have next_ok: "Suc r < m \<longrightarrow> lead (ps ! r) \<le> lead (ps ! Suc r)"
    using rref_lead_mono [OF assms(3,2), of r "Suc r"] assms(4) by simp
  from Suc.hyps(2) have "k = m - Suc r" by simp
  from Suc.hyps(1) [OF this next_ok] tri_while_rref [OF assms(1,2,3) rl d] r show ?case
    by (simp add: upt_conv_Cons err_bind_def)
qed

subsection \<open>The backward pass on a reduced system\<close>

text \<open>
  A plane as a vector: its coefficients, then its constant term. While the backward pass
  works on a row, the row differs from what it was by a combination of rows below it;
  \<open>combos us m\<close> are the combinations of the rows in \<open>us\<close> whose lead is less than
  \<open>m\<close>. When the cursor passes the lead of a row below, that row's share is taken out
  again, so at the end of the pass nothing is left.
\<close>

definition vec :: "plane \<Rightarrow> nat \<Rightarrow> rat" where
  "vec p i =
     (if i < length (normal_vector p) then normal_vector p ! i
      else if i = length (normal_vector p) then constant_term p else 0)"

lemma plane_eqI:
  assumes "plane_dimension p = plane_dimension q" and "\<And>i. vec p i = vec q i"
  shows "p = q"
proof (rule plane.equality)
  show "normal_vector p = normal_vector q"
  proof (rule nth_equalityI)
    show "length (normal_vector p) = length (normal_vector q)"
      using assms(1) by (simp add: plane_dimension_def)
    fix i assume "i < length (normal_vector p)"
    with assms(1) assms(2) [of i] show "normal_vector p ! i = normal_vector q ! i"
      by (simp add: vec_def plane_dimension_def)
  qed
  from assms(1) assms(2) [of "length (normal_vector p)"]
  show "constant_term p = constant_term q" by (simp add: vec_def plane_dimension_def)
qed simp

lemma vec_mul: "vec (plane_mul p c) i = vec p i * c"
  by (simp add: vec_def plane_mul_def)

lemma vec_add:
  "plane_dimension q = plane_dimension p \<Longrightarrow> vec (plane_add p q) i = vec p i + vec q i"
  by (simp add: vec_def plane_add_def plane_dimension_def)

lemma vec_sub:
  "plane_dimension q = plane_dimension p \<Longrightarrow> vec (plane_sub p q) i = vec p i - vec q i"
  by (simp add: vec_def plane_sub_def plane_dimension_def)

lemma vec_coeff: "i < length (normal_vector p) \<Longrightarrow> vec p i = normal_vector p ! i"
  by (simp add: vec_def)

definition cancel_step :: "plane \<Rightarrow> plane \<Rightarrow> rat \<Rightarrow> rat \<Rightarrow> plane" where
  "cancel_step p u c under_coeff =
     (if c < 0 then plane_add p (plane_mul u (\<bar>c\<bar> / under_coeff))
      else plane_sub p (plane_mul u (\<bar>c\<bar> / under_coeff)))"

lemma vec_cancel_step:
  assumes "plane_dimension u = plane_dimension p"
  shows "vec (cancel_step p u c uc) i = vec p i + (- c / uc) * vec u i"
  using assms by (simp add: cancel_step_def vec_add vec_sub vec_mul)

lemma plane_dimension_cancel_step:
  "plane_dimension u = plane_dimension p \<Longrightarrow> plane_dimension (cancel_step p u c uc) = plane_dimension p"
  by (simp add: cancel_step_def)

lemma py_round3_0 [simp]: "py_round3 0 = 0"
  by (simp add: py_round3_def round_half_even_def)

lemma py_round3_1 [simp]: "py_round3 1 = 1"
  by (simp add: py_round3_def round_half_even_def)

inductive_set combos :: "plane list \<Rightarrow> nat \<Rightarrow> (nat \<Rightarrow> rat) set" for us :: "plane list" and m :: nat
  where
    zero: "(\<lambda>i. 0) \<in> combos us m"
  | add: "x \<in> combos us m \<Longrightarrow> u \<in> set us \<Longrightarrow> \<not> zero_row u \<Longrightarrow> lead u < m \<Longrightarrow>
          (\<lambda>i. x i + k * vec u i) \<in> combos us m"

lemma combos_0: "x \<in> combos us 0 \<Longrightarrow> x = (\<lambda>i. 0)"
  by (induction rule: combos.induct) simp_all

lemma combos_pivot:
  assumes "x \<in> combos us (Suc d)" and "vec u0 d = 1"
    and "\<forall>u\<in>set us. u \<noteq> u0 \<longrightarrow> vec u d = 0"
  shows "(\<lambda>i. x i - x d * vec u0 i) \<in> combos us d"
  using assms(1)
proof (induction rule: combos.induct)
  case zero
  have "(\<lambda>i. 0 - 0 * vec u0 i) = (\<lambda>i. 0 :: rat)" by simp
  then show ?case by (simp add: combos.zero)
next
  case (add x u k)
  show ?case
  proof (cases "u = u0")
    case True
    have "(\<lambda>i. x i + k * vec u i - (x d + k * vec u d) * vec u0 i) = (\<lambda>i. x i - x d * vec u0 i)"
      using True assms(2) by (simp add: algebra_simps)
    with add.IH show ?thesis by simp
  next
    case False
    with add.hyps(2) assms(3) have z: "vec u d = 0" by blast
    from nonzero_lead [OF add.hyps(3)] have "vec u (lead u) \<noteq> 0" by (simp add: vec_coeff)
    with z have "lead u \<noteq> d" by auto
    with add.hyps(4) have "lead u < d" by simp
    from combos.add [OF add.IH add.hyps(2,3) this, of k]
    have "(\<lambda>i. x i - x d * vec u0 i + k * vec u i) \<in> combos us d" .
    moreover have "(\<lambda>i. x i + k * vec u i - (x d + k * vec u d) * vec u0 i)
        = (\<lambda>i. x i - x d * vec u0 i + k * vec u i)"
      using z by (simp add: algebra_simps)
    ultimately show ?thesis by simp
  qed
qed

lemma combos_no_pivot:
  assumes "x \<in> combos us (Suc d)" and "\<forall>u\<in>set us. \<not> zero_row u \<longrightarrow> lead u \<noteq> d"
  shows "x \<in> combos us d"
  using assms(1)
proof (induction rule: combos.induct)
  case zero
  show ?case by (rule combos.zero)
next
  case (add x u k)
  from add.hyps(2,3,4) assms(2) have "lead u < d" by fastforce
  from combos.add [OF add.IH add.hyps(2,3) this] show ?case .
qed

lemma cancel_rows_Cons:
  "cancel_rows ps row d c (i # rest) =
     (if py_round3 (normal_vector (ps ! (i + 1)) ! d) \<noteq> 0
      then cancel_rows
             (ps[row := cancel_step (ps ! row) (ps ! (i + 1)) c
                          (py_round3 (normal_vector (ps ! (i + 1)) ! d))]) row d c rest
      else cancel_rows ps row d c rest)"
  by (simp add: Let_def cancel_step_def)

lemma cancel_rows_pivot:
  assumes "row < length base" and "\<forall>i\<in>set ns. row \<le> i \<and> i + 1 < length base"
    and "distinct ns" and "row < j0"
    and "\<forall>j. row < j \<and> j < length base \<and> j \<noteq> j0 \<longrightarrow>
           py_round3 (normal_vector (base ! j) ! d) = 0"
    and "py_round3 (normal_vector (base ! j0) ! d) = uc0" and "uc0 \<noteq> 0"
  shows "cancel_rows (base[row := p]) row d c ns =
           base[row := (if j0 - 1 \<in> set ns then cancel_step p (base ! j0) c uc0 else p)]"
  using assms(2,3)
proof (induction ns arbitrary: p)
  case Nil
  then show ?case by simp
next
  case (Cons i ns)
  from Cons.prems have i: "row \<le> i" "i + 1 < length base" and "i \<notin> set ns"
    and ns: "\<forall>i\<in>set ns. row \<le> i \<and> i + 1 < length base" "distinct ns"
    by simp_all
  from i have under: "(base[row := p]) ! (i + 1) = base ! (i + 1)" by simp
  have self: "(base[row := p]) ! row = p" using assms(1) by simp
  show ?case
  proof (cases "i + 1 = j0")
    case True
    with \<open>i \<notin> set ns\<close> have "j0 - 1 \<notin> set ns" by auto
    with Cons.IH [OF ns, of "cancel_step p (base ! j0) c uc0"] True assms(6,7) under self
    show ?thesis
      by (simp only: cancel_rows_Cons) (auto simp: list_update_overwrite)
  next
    case False
    with i assms(5) have z: "py_round3 (normal_vector (base ! (i + 1)) ! d) = 0" by simp
    from False assms(4) have "j0 - 1 \<noteq> i" by auto
    with Cons.IH [OF ns, of p] z under show ?thesis
      by (simp only: cancel_rows_Cons) auto
  qed
qed

lemma cancel_rows_combo:
  assumes "row < length base" and "\<forall>i\<in>set ns. row \<le> i \<and> i + 1 < length base"
    and closed: "\<And>x i k. x \<in> T \<Longrightarrow> i \<in> set ns \<Longrightarrow>
           py_round3 (normal_vector (base ! (i + 1)) ! d) \<noteq> 0 \<Longrightarrow>
           (\<lambda>j. x j + k * vec (base ! (i + 1)) j) \<in> T"
    and "\<forall>i\<in>set ns. plane_dimension (base ! (i + 1)) = dims"
    and "plane_dimension p = dims" and "(\<lambda>j. vec p j - vec q j) \<in> T"
  shows "\<exists>p'. cancel_rows (base[row := p]) row d c ns = base[row := p'] \<and>
           plane_dimension p' = dims \<and> (\<lambda>j. vec p' j - vec q j) \<in> T"
  using assms(2,3,4,5,6)
proof (induction ns arbitrary: p)
  case Nil
  then show ?case by auto
next
  case (Cons i ns)
  from Cons.prems(1) have i: "row \<le> i" "i + 1 < length base"
    and ns: "\<forall>i\<in>set ns. row \<le> i \<and> i + 1 < length base"
    by simp_all
  from Cons.prems(3) have du: "plane_dimension (base ! (i + 1)) = dims"
    and dns: "\<forall>i\<in>set ns. plane_dimension (base ! (i + 1)) = dims"
    by simp_all
  have cl: "\<And>x i k. x \<in> T \<Longrightarrow> i \<in> set ns \<Longrightarrow>
           py_round3 (normal_vector (base ! (i + 1)) ! d) \<noteq> 0 \<Longrightarrow>
           (\<lambda>j. x j + k * vec (base ! (i + 1)) j) \<in> T"
    using Cons.prems(2) by simp
  from i have under: "(base[row := p]) ! (i + 1) = base ! (i + 1)" by simp
  have self: "(base[row := p]) ! row = p" using assms(1) by simp
  let ?u = "base ! (i + 1)"
  let ?uc = "py_round3 (normal_vector ?u ! d)"
  show ?case
  proof (cases "?uc \<noteq> 0")
    case False
    with Cons.IH [OF ns cl dns Cons.prems(4,5)] under show ?thesis
      by (simp only: cancel_rows_Cons) auto
  next
    case True
    let ?p1 = "cancel_step p ?u c ?uc"
    have d1: "plane_dimension ?p1 = dims"
      using du Cons.prems(4) by (simp add: plane_dimension_cancel_step)
    have "(\<lambda>j. (vec p j - vec q j) + (- c / ?uc) * vec ?u j) \<in> T"
      using Cons.prems(2) [OF Cons.prems(5), of i "- c / ?uc"] True by simp
    moreover have "(\<lambda>j. vec ?p1 j - vec q j) = (\<lambda>j. (vec p j - vec q j) + (- c / ?uc) * vec ?u j)"
      using du Cons.prems(4) by (simp add: vec_cancel_step algebra_simps)
    ultimately have t1: "(\<lambda>j. vec ?p1 j - vec q j) \<in> T" by simp
    from Cons.IH [OF ns cl dns d1 t1] obtain p'
      where "cancel_rows (base[row := ?p1]) row d c ns = base[row := p']"
        "plane_dimension p' = dims" "(\<lambda>j. vec p' j - vec q j) \<in> T"
      by blast
    with True under self show ?thesis
      by (simp only: cancel_rows_Cons) (auto simp: list_update_overwrite)
  qed
qed

lemma in_set_drop_nth:
  "u \<in> set (drop n xs) \<longleftrightarrow> (\<exists>j. n \<le> j \<and> j < length xs \<and> u = xs ! j)"
proof
  assume "u \<in> set (drop n xs)"
  then obtain i where i: "i < length (drop n xs)" "drop n xs ! i = u"
    by (auto simp: in_set_conv_nth)
  then show "\<exists>j. n \<le> j \<and> j < length xs \<and> u = xs ! j"
    by (intro exI [of _ "n + i"]) auto
next
  assume "\<exists>j. n \<le> j \<and> j < length xs \<and> u = xs ! j"
  then obtain j where j: "n \<le> j" "j < length xs" "u = xs ! j" by blast
  then have "j - n < length (drop n xs)" "drop n xs ! (j - n) = u" by simp_all
  then show "u \<in> set (drop n xs)" by (metis nth_mem)
qed

lemma rref_pivot_column:
  assumes "rref base" and "j0 < length base" and "\<not> zero_row (base ! j0)"
    and "j < length base" and "j \<noteq> j0"
  shows "normal_vector (base ! j) ! lead (base ! j0) = 0"
proof (cases "j < j0")
  case True
  from rref_nth [OF assms(1) True assms(2)] assms(3) show ?thesis by (auto split: if_splits)
next
  case False
  with assms(5) have "j0 < j" by simp
  from rref_nth [OF assms(1) this assms(4)] assms(3) show ?thesis by (auto split: if_splits)
qed

lemma back_while_rows_rref:
  assumes rref: "rref base" and dim: "same_dimension dims base" and row: "row < length base"
  shows "plane_dimension p = dims \<Longrightarrow>
         (\<lambda>j. vec p j - vec (base ! row) j) \<in> combos (drop (Suc row) base) (nat (d + 1)) \<Longrightarrow>
         d < int dims \<Longrightarrow>
         back_while_rows (base[row := p]) (length base) row d = base"
proof (induction "nat (d + 1)" arbitrary: d p)
  case 0
  then have d: "\<not> d > - 1" by simp
  from 0 have "(\<lambda>j. vec p j - vec (base ! row) j) = (\<lambda>i. 0)" by (simp add: combos_0)
  then have "vec p j = vec (base ! row) j" for j by (metis eq_iff_diff_eq_0)
  moreover have "plane_dimension (base ! row) = dims"
    using dim row by (simp add: same_dimension_def list_all_length)
  ultimately have "p = base ! row" using "0.prems"(1) by (intro plane_eqI) simp_all
  moreover from d have "back_while_rows (base[row := p]) (length base) row d = base[row := p]"
    by (simp add: back_while_rows.simps [of "base[row := p]" "length base" row d])
  ultimately show ?case by simp
next
  case (Suc n)
  let ?q = "base ! row" and ?us = "drop (Suc row) base" and ?rows = "length base"
  let ?k = "nat d"
  let ?ps1 = "base[row := p]"
  from Suc.hyps(2) have d: "d > - 1" and n: "n = nat (d - 1 + 1)" and sk: "nat (d + 1) = Suc ?k"
    by simp_all
  from d Suc.prems(3) have k: "?k < dims" by simp
  have klen: "?k < length (normal_vector (base ! j))" if "j < length base" for j
    using same_dimension_nth [OF dim that] k by simp
  have pdim: "plane_dimension (base ! j) = dims" if "j < length base" for j
    using dim that by (simp add: same_dimension_def list_all_length)
  have us: "u \<in> set ?us \<longleftrightarrow> (\<exists>j. row < j \<and> j < length base \<and> u = base ! j)" for u
    by (auto simp: in_set_drop_nth Suc_le_eq)
  let ?diff = "\<lambda>j. vec p j - vec ?q j"
  let ?c = "normal_vector (?ps1 ! row) ! ?k"
  have c: "?c = vec p ?k"
    using row k Suc.prems(1) by (simp add: vec_def plane_dimension_def)
  have d1: "d - 1 < int dims" using Suc.prems(3) by simp
  have diff: "?diff \<in> combos ?us (Suc ?k)" using Suc.prems(2) sk by simp
  have unfold: "back_while_rows ?ps1 ?rows row d =
      back_while_rows (if ?c \<noteq> 0 then cancel_rows ?ps1 row ?k ?c [row..<?rows - 1] else ?ps1)
        ?rows row (d - 1)"
    using d by (simp add: back_while_rows.simps [of ?ps1 ?rows row d] Let_def)
  have ns: "\<forall>i\<in>set [row..<?rows - 1]. row \<le> i \<and> i + 1 < length base" by auto
  have "\<exists>p'. (if ?c \<noteq> 0 then cancel_rows ?ps1 row ?k ?c [row..<?rows - 1] else ?ps1)
            = base[row := p'] \<and> plane_dimension p' = dims \<and>
          (\<lambda>j. vec p' j - vec ?q j) \<in> combos ?us ?k"
  proof (cases "\<exists>j0. row < j0 \<and> j0 < length base \<and> \<not> zero_row (base ! j0) \<and>
                  lead (base ! j0) = ?k")
    case True
    then obtain j0 where j0: "row < j0" "j0 < length base" "\<not> zero_row (base ! j0)"
      "lead (base ! j0) = ?k"
      by blast
    let ?u0 = "base ! j0"
    have col: "normal_vector (base ! j) ! ?k = 0" if "j < length base" "j \<noteq> j0" for j
      using rref_pivot_column [OF rref j0(2,3) that] j0(4) by simp
    have one: "normal_vector ?u0 ! ?k = 1" using rref_pivot [OF rref j0(2,3)] j0(4) by simp
    have v1: "vec ?u0 ?k = 1" using one klen [OF j0(2)] by (simp add: vec_coeff)
    have q0: "vec ?q ?k = 0" using col [OF row] j0(1) klen [OF row] by (simp add: vec_coeff)
    have others: "\<forall>u\<in>set ?us. u \<noteq> ?u0 \<longrightarrow> vec u ?k = 0"
    proof (intro ballI impI)
      fix u assume "u \<in> set ?us" "u \<noteq> ?u0"
      then obtain j where j: "row < j" "j < length base" "u = base ! j" "j \<noteq> j0"
        by (auto simp: us)
      with col [OF j(2,4)] klen [OF j(2)] show "vec u ?k = 0" by (simp add: vec_coeff)
    qed
    from combos_pivot [OF diff v1 others]
    have red: "(\<lambda>i. ?diff i - ?diff ?k * vec ?u0 i) \<in> combos ?us ?k" .
    show ?thesis
    proof (cases "?c = 0")
      case True
      with c q0 have "?diff ?k = 0" by simp
      with red have "?diff \<in> combos ?us ?k" by simp
      with True Suc.prems(1) show ?thesis by auto
    next
      case False
      have zeros: "\<forall>j. row < j \<and> j < length base \<and> j \<noteq> j0 \<longrightarrow>
          py_round3 (normal_vector (base ! j) ! ?k) = 0"
        using col by simp
      have uc0: "py_round3 (normal_vector ?u0 ! ?k) = 1" using one by simp
      have mem: "j0 - 1 \<in> set [row..<?rows - 1]" using j0(1,2) by auto
      from cancel_rows_pivot [OF row ns distinct_upt j0(1) zeros uc0, of p ?c] mem
      have res: "cancel_rows ?ps1 row ?k ?c [row..<?rows - 1]
                   = base[row := cancel_step p ?u0 ?c 1]"
        by simp
      let ?p' = "cancel_step p ?u0 ?c 1"
      have du: "plane_dimension ?u0 = plane_dimension p"
        using pdim [OF j0(2)] Suc.prems(1) by simp
      have "plane_dimension ?p' = dims"
        using du Suc.prems(1) by (simp add: plane_dimension_cancel_step)
      moreover have "(\<lambda>j. vec ?p' j - vec ?q j) = (\<lambda>i. ?diff i - ?diff ?k * vec ?u0 i)"
        using du c q0 by (simp add: vec_cancel_step algebra_simps)
      ultimately show ?thesis using False res red by auto
    qed
  next
    case False
    then have nopiv: "\<forall>u\<in>set ?us. \<not> zero_row u \<longrightarrow> lead u \<noteq> ?k"
      by (auto simp: us)
    from combos_no_pivot [OF diff nopiv] have diff': "?diff \<in> combos ?us ?k" .
    show ?thesis
    proof (cases "?c = 0")
      case True
      with diff' Suc.prems(1) show ?thesis by auto
    next
      case nz: False
      have closed: "(\<lambda>j. x j + m * vec (base ! (i + 1)) j) \<in> combos ?us ?k"
        if x: "x \<in> combos ?us ?k" and i: "i \<in> set [row..<?rows - 1]"
          and e: "py_round3 (normal_vector (base ! (i + 1)) ! ?k) \<noteq> 0" for x i m
      proof -
        let ?u = "base ! (i + 1)"
        from i have j: "row < i + 1" "i + 1 < length base" by auto
        then have mem: "?u \<in> set ?us" by (auto simp: us)
        from e have ne: "normal_vector ?u ! ?k \<noteq> 0" by auto
        with zero_row_nth [of ?u ?k] klen [OF j(2)] have nzr: "\<not> zero_row ?u" by auto
        from ne lead_zero [of ?k ?u] have "lead ?u \<le> ?k" by (cases "?k < lead ?u") auto
        with nopiv mem nzr have "lead ?u < ?k" by fastforce
        from combos.add [OF x mem nzr this] show ?thesis .
      qed
      have dns: "\<forall>i\<in>set [row..<?rows - 1]. plane_dimension (base ! (i + 1)) = dims"
        using pdim by auto
      from cancel_rows_combo [OF row ns closed dns Suc.prems(1) diff', where c = ?c] nz
      show ?thesis by auto
    qed
  qed
  then obtain p' where p': "(if ?c \<noteq> 0 then cancel_rows ?ps1 row ?k ?c [row..<?rows - 1] else ?ps1)
            = base[row := p']" "plane_dimension p' = dims"
          "(\<lambda>j. vec p' j - vec ?q j) \<in> combos ?us ?k"
    by blast
  from n have "nat (d - 1 + 1) = ?k" by simp
  with p'(3) have "(\<lambda>j. vec p' j - vec ?q j) \<in> combos ?us (nat (d - 1 + 1))" by simp
  from Suc.hyps(1) [OF n p'(2) this d1] unfold p'(1) show ?case by simp
qed

lemma back_while_rows_rref_row:
  assumes "rref base" and "same_dimension dims base" and "row < length base" and "d < int dims"
  shows "back_while_rows base (length base) row d = base"
proof -
  have "plane_dimension (base ! row) = dims"
    using assms(2,3) by (simp add: same_dimension_def list_all_length)
  moreover have "(\<lambda>j. vec (base ! row) j - vec (base ! row) j)
      \<in> combos (drop (Suc row) base) (nat (d + 1))"
    by (simp add: combos.zero)
  ultimately have "back_while_rows (base[row := base ! row]) (length base) row d = base"
    using assms(4) by (rule back_while_rows_rref [OF assms(1,2,3)])
  then show ?thesis by simp
qed

lemma back_rows_rows_rref:
  assumes "rref base" and "same_dimension dims base" and "\<forall>r\<in>set rs. r < length base"
    and "d < int dims" and "ds < int dims"
  shows "back_rows_rows base (length base) ds d rs = base"
  using assms(3,4)
proof (induction rs arbitrary: d)
  case Nil
  then show ?case by simp
next
  case (Cons r rs)
  then have r: "r < length base" and rs: "\<forall>r\<in>set rs. r < length base" by simp_all
  from back_while_rows_rref_row [OF assms(1,2) r Cons.prems(2)] Cons.IH [OF rs assms(5)]
  show ?case by simp
qed

lemma plane_mul_mul: "plane_mul (plane_mul q a) b = plane_mul q (a * b)"
  by (simp add: plane_mul_def algebra_simps)

lemma plane_mul_1: "plane_mul q 1 = q"
  by (simp add: plane_mul_def)

lemma norm_while_rows_rref:
  assumes row: "row < length base" and len: "length (normal_vector (base ! row)) = dims"
    and piv: "\<not> zero_row (base ! row) \<longrightarrow> normal_vector (base ! row) ! lead (base ! row) = 1"
  shows "m \<noteq> 0 \<Longrightarrow> (d < int (lead (base ! row)) \<longrightarrow> m = 1) \<Longrightarrow> d < int dims \<Longrightarrow>
         norm_while_rows (base[row := plane_mul (base ! row) m]) row d = base"
proof (induction "nat (d + 1)" arbitrary: d m)
  case 0
  then have d: "\<not> d > - 1" by simp
  then have "d < int (lead (base ! row))" by simp
  with 0 have "m = 1" by simp
  moreover from d have "norm_while_rows (base[row := plane_mul (base ! row) m]) row d
      = base[row := plane_mul (base ! row) m]"
    by (simp add: norm_while_rows.simps [of "base[row := plane_mul (base ! row) m]" row d])
  ultimately show ?case by (simp add: plane_mul_1)
next
  case (Suc n)
  let ?q = "base ! row"
  let ?k = "nat d"
  let ?ps1 = "base[row := plane_mul ?q m]"
  from Suc.hyps(2) have d: "d > - 1" and n: "n = nat (d - 1 + 1)" by simp_all
  from d Suc.prems(3) have k: "?k < dims" by simp
  let ?c = "normal_vector (?ps1 ! row) ! ?k"
  have c: "?c = normal_vector ?q ! ?k * m"
    using row k len by (simp add: plane_mul_def)
  have d1: "d - 1 < int dims" using Suc.prems(3) by simp
  have unfold: "norm_while_rows ?ps1 row d =
      norm_while_rows (if ?c \<noteq> 0 then ?ps1[row := plane_mul (?ps1 ! row) (1 / ?c)] else ?ps1)
        row (d - 1)"
    using d by (simp add: norm_while_rows.simps [of ?ps1 row d] Let_def)
  have at_lead: "normal_vector ?q ! ?k = 1" if "int (lead ?q) = d"
  proof -
    from that have l: "lead ?q = ?k" by simp
    with k len have "\<not> zero_row ?q" by (simp add: zero_row_lead)
    with piv l show ?thesis by simp
  qed
  have before_lead: "normal_vector ?q ! ?k = 0" if "d < int (lead ?q)"
    using that d by (intro lead_zero) simp
  show ?case
  proof (cases "?c = 0")
    case True
    have "d - 1 < int (lead ?q) \<longrightarrow> m = 1"
    proof
      assume "d - 1 < int (lead ?q)"
      then have "d < int (lead ?q) \<or> int (lead ?q) = d" by auto
      then show "m = 1"
      proof
        assume "d < int (lead ?q)"
        with Suc.prems(2) show ?thesis by simp
      next
        assume "int (lead ?q) = d"
        from at_lead [OF this] c True Suc.prems(1) show ?thesis by simp
      qed
    qed
    from Suc.hyps(1) [OF n Suc.prems(1) this d1] unfold True show ?thesis by simp
  next
    case False
    let ?m' = "m * (1 / ?c)"
    have upd: "?ps1[row := plane_mul (?ps1 ! row) (1 / ?c)] = base[row := plane_mul ?q ?m']"
      using row by (simp add: plane_mul_mul)
    have m': "?m' \<noteq> 0" using False Suc.prems(1) by simp
    have "d - 1 < int (lead ?q) \<longrightarrow> ?m' = 1"
    proof
      assume "d - 1 < int (lead ?q)"
      then have "d < int (lead ?q) \<or> int (lead ?q) = d" by auto
      then show "?m' = 1"
      proof
        assume "d < int (lead ?q)"
        from before_lead [OF this] c False show ?thesis by simp
      next
        assume "int (lead ?q) = d"
        from at_lead [OF this] c have "?c = m" by simp
        with Suc.prems(1) show ?thesis by simp
      qed
    qed
    from Suc.hyps(1) [OF n m' this d1] unfold False upd show ?thesis by simp
  qed
qed

lemma norm_rows_rows_done: "d \<le> - 1 \<Longrightarrow> norm_rows_rows ps d rs = ps"
proof (induction rs arbitrary: ps)
  case Nil
  then show ?case by simp
next
  case (Cons r rs)
  then have "norm_while_rows ps r d = ps" by (simp add: norm_while_rows.simps [of ps r d])
  with Cons show ?case by (simp add: min_def)
qed

lemma norm_rows_rows_rref:
  assumes "rref base" and "same_dimension dims base" and "d < int dims"
  shows "norm_rows_rows base d (rev [0..<length base]) = base"
proof (cases "length base")
  case 0
  then show ?thesis by simp
next
  case (Suc n)
  then have n: "n < length base" by simp
  have len: "length (normal_vector (base ! n)) = dims"
    using assms(2) n by (rule same_dimension_nth)
  have piv: "\<not> zero_row (base ! n) \<longrightarrow> normal_vector (base ! n) ! lead (base ! n) = 1"
    using rref_pivot [OF assms(1) n] by simp
  have "norm_while_rows (base[n := plane_mul (base ! n) 1]) n d = base"
    using norm_while_rows_rref [OF n len piv, of 1 d] assms(3) by simp
  then have "norm_while_rows base n d = base" by (simp add: plane_mul_1)
  then show ?thesis using Suc by (simp add: norm_rows_rows_done)
qed

subsection \<open>The rows come back\<close>

text \<open>
  Let \<open>ps\<close> be the rows of the system, all of the dimension of the system, and in reduced
  row echelon form. With exact rational coefficients \<open>compute_rref_form\<close> returns a
  system whose rows are \<open>ps\<close>.
\<close>

lemma compute_rref_form_exact:
  assumes "rows_of h s = Inr ps" and "same_dimension (dimension s) ps" and "rref ps"
  shows "\<exists>h' t. compute_rref_form h s = Inr (h', t) \<and> rows_of h' t = Inr ps"
proof -
  let ?rows = "length ps" and ?dims = "dimension s"
  from deepcopy_ok [OF assms(1)] obtain ext t
    where t: "deepcopy h s = Inr (h @ ext, t)" "copy_rows (length h) (h @ ext) (planes t) ps"
      "dimension t = ?dims"
    by blast
  have "tri_rows (h @ ext) (planes t) ?rows ?dims 0 [0..<?rows - 1] = Inr (h @ ext)"
    by (rule tri_rows_rref [OF t(2) assms(2,3)]) simp_all
  with t(1,3) copy_rows_len [OF t(2)]
  have tri: "compute_triangular_form h s = Inr (h @ ext, t)"
    by (simp add: compute_triangular_form_def err_bind_def)
  from deepcopy_ok [OF copy_rows_rows_of [OF t(2)]] obtain ext2 r
    where r: "deepcopy (h @ ext) t = Inr (h @ ext @ ext2, r)"
      "copy_rows (length (h @ ext)) (h @ ext @ ext2) (planes r) ps" "dimension r = dimension t"
    by auto
  let ?n1 = "length (h @ ext)" and ?h2 = "h @ ext @ ext2" and ?l = "planes r"
  let ?ds = "int ?dims - 1"
  have rs: "\<forall>k\<in>set (rev [0..<?rows]). k < ?rows" by simp
  have ds: "?ds < int ?dims" "- 1 \<le> ?ds" by simp_all
  from back_rows_sim [OF r(2) assms(2) refl rs ds(1) ds(1) ds(2)] obtain h3
    where h3: "back_rows ?h2 ?l ?rows ?ds ?ds (rev [0..<?rows])
                 = Inr (h3, if rev [0..<?rows] = [] then ?ds else ?ds)"
      "copy_rows ?n1 h3 ?l (back_rows_rows ps ?rows ?ds ?ds (rev [0..<?rows]))"
    by blast
  have "back_rows_rows ps ?rows ?ds ?ds (rev [0..<?rows]) = ps"
    by (rule back_rows_rows_rref [OF assms(3,2) _ ds(1) ds(1)]) simp
  with h3(2) have c3: "copy_rows ?n1 h3 ?l ps" by simp
  from norm_rows_sim [OF c3 assms(2) _ ds(1), of "rev [0..<?rows]"] obtain h4
    where h4: "norm_rows h3 ?l ?ds (rev [0..<?rows]) = Inr h4"
      "copy_rows ?n1 h4 ?l (norm_rows_rows ps ?ds (rev [0..<?rows]))"
    by auto
  have "norm_rows_rows ps ?ds (rev [0..<?rows]) = ps"
    by (rule norm_rows_rows_rref [OF assms(3,2) ds(1)])
  with h4(2) have c4: "copy_rows ?n1 h4 ?l ps" by simp
  have "compute_rref_form h s = Inr (h4, r)"
    using tri r(1,3) t(3) copy_rows_len [OF r(2)] h3(1) copy_rows_len [OF c3] h4(1)
    by (simp add: compute_rref_form_def err_bind_def Let_def)
  with copy_rows_rows_of [OF c4] show ?thesis by blast
qed

end
